theory Spec2Isabelle
  imports Main
begin

section \<open>JavaScript values and the object store\<close>

text \<open>
  The creator page script works on the embedded editor's global \<open>card\<close> object, on
  replies of two HTTP APIs and on a few DOM widgets. Objects are shared by reference
  in JavaScript, and the save handler relies on a deep copy, so objects live in an
  explicit store: an address is an index into a list of objects, and allocation appends.
  Numbers are modelled as integers; no property below depends on a numeric value.
\<close>

type_synonym addr = nat

datatype val =
    Undefined
  | Null
  | Bool bool
  | Num int
  | Str string
  | Ref addr

text \<open>
  A plain object keeps its own enumerable properties in insertion order. A host object
  (an image element held by a frame or a mask, say) has no own enumerable property;
  it carries its class name and the properties that can be read from it, which it
  inherits (the \<open>name\<close> and \<open>src\<close> of an image element, say).
\<close>

datatype obj =
    Object "(string \<times> val) list"
  | Array "val list"
  | Host string "(string \<times> val) list"

type_synonym heap = "obj list"

datatype error = TypeError | SyntaxError | SecurityError

text \<open>JSON text is represented by the tree it denotes.\<close>

datatype json =
    JNull
  | JBool bool
  | JNum int
  | JStr string
  | JArr "json list"
  | JObj "(string \<times> json) list"

fun truthy :: "val \<Rightarrow> bool" where
  "truthy Undefined = False"
| "truthy Null = False"
| "truthy (Bool b) = b"
| "truthy (Num n) = (n \<noteq> 0)"
| "truthy (Str s) = (s \<noteq> [])"
| "truthy (Ref a) = True"

subsection \<open>Decimal rendering of numbers\<close>

definition digit_char :: "nat \<Rightarrow> char" where
  "digit_char d = char_of (48 + d)"

function show_nat :: "nat \<Rightarrow> string" where
  "show_nat n = (if n < 10 then [digit_char n] else show_nat (n div 10) @ [digit_char (n mod 10)])"
  by pat_completeness auto
termination
  by (relation "measure (\<lambda>n. n)") auto

declare show_nat.simps [simp del]

definition show_int :: "int \<Rightarrow> string" where
  "show_int i = (if i < 0 then CHR ''-'' # show_nat (nat (- i)) else show_nat (nat i))"

subsection \<open>Property access\<close>

text \<open>
  \<open>index_of_key n k\<close> is the array index below \<open>n\<close> whose canonical decimal form is the
  property key \<open>k\<close>, if there is one.
\<close>

definition index_of_key :: "nat \<Rightarrow> string \<Rightarrow> nat option" where
  "index_of_key n k = (case filter (\<lambda>i. show_nat i = k) [0..<n] of [] \<Rightarrow> None | i # _ \<Rightarrow> Some i)"

text \<open>
  \<open>get_prop h v k\<close> is the member access \<open>v.k\<close> (or \<open>v[k]\<close>): reading a property of
  \<open>undefined\<close> or \<open>null\<close> throws; a missing property reads as \<open>undefined\<close>. Of the
  inherited properties, \<open>length\<close> of strings and arrays and those that a host object
  carries are modelled; the script reads no other inherited data property.
\<close>

definition get_prop :: "heap \<Rightarrow> val \<Rightarrow> string \<Rightarrow> error + val" where
  "get_prop h v k =
     (case v of
        Undefined \<Rightarrow> Inl TypeError
      | Null \<Rightarrow> Inl TypeError
      | Bool b \<Rightarrow> Inr Undefined
      | Num n \<Rightarrow> Inr Undefined
      | Str s \<Rightarrow>
          (if k = ''length'' then Inr (Num (int (length s)))
           else case index_of_key (length s) k of
                  Some i \<Rightarrow> Inr (Str [s ! i])
                | None \<Rightarrow> Inr Undefined)
      | Ref a \<Rightarrow>
          (if length h \<le> a then Inr Undefined
           else case h ! a of
                  Object ps \<Rightarrow> (case map_of ps k of Some x \<Rightarrow> Inr x | None \<Rightarrow> Inr Undefined)
                | Array vs \<Rightarrow>
                    (if k = ''length'' then Inr (Num (int (length vs)))
                     else case index_of_key (length vs) k of
                            Some i \<Rightarrow> Inr (vs ! i)
                          | None \<Rightarrow> Inr Undefined)
                | Host c qs \<Rightarrow> (case map_of qs k of Some x \<Rightarrow> Inr x | None \<Rightarrow> Inr Undefined)))"

text \<open>
  \<open>delete_prop h v k\<close> is \<open>delete v.k\<close> for a key that is not an array index: it throws
  on \<open>undefined\<close> and \<open>null\<close>, removes an own property of a plain object and does
  nothing otherwise.
\<close>

definition delete_prop :: "heap \<Rightarrow> val \<Rightarrow> string \<Rightarrow> error + heap" where
  "delete_prop h v k =
     (case v of
        Undefined \<Rightarrow> Inl TypeError
      | Null \<Rightarrow> Inl TypeError
      | Ref a \<Rightarrow>
          (if length h \<le> a then Inr h
           else case h ! a of
                  Object ps \<Rightarrow> Inr (h[a := Object (filter (\<lambda>p. fst p \<noteq> k) ps)])
                | _ \<Rightarrow> Inr h)
      | _ \<Rightarrow> Inr h)"

text \<open>
  \<open>put k x ps\<close> writes an own property, keeping its position when it exists already.
\<close>

fun put :: "string \<Rightarrow> val \<Rightarrow> (string \<times> val) list \<Rightarrow> (string \<times> val) list" where
  "put k x [] = [(k, x)]"
| "put k x (p # ps) = (if fst p = k then (k, x) # ps else p # put k x ps)"

text \<open>
  \<open>set_prop h v k x\<close> is the assignment \<open>v.k = x\<close> for a key that is neither an array
  index nor \<open>length\<close>: it throws on \<open>undefined\<close> and \<open>null\<close>, is dropped silently on
  the other primitives, and is not recorded for arrays and host objects: the model keeps
  no named property of an array, and of a host object only those it inherits.
\<close>

definition set_prop :: "heap \<Rightarrow> val \<Rightarrow> string \<Rightarrow> val \<Rightarrow> error + heap" where
  "set_prop h v k x =
     (case v of
        Undefined \<Rightarrow> Inl TypeError
      | Null \<Rightarrow> Inl TypeError
      | Ref a \<Rightarrow>
          (if length h \<le> a then Inr h
           else case h ! a of
                  Object ps \<Rightarrow> Inr (h[a := Object (put k x ps)])
                | _ \<Rightarrow> Inr h)
      | _ \<Rightarrow> Inr h)"

text \<open>The receiver of \<open>forEach\<close> must be an array; anything else has no such method.\<close>

definition array_elems :: "heap \<Rightarrow> val \<Rightarrow> error + val list" where
  "array_elems h v =
     (case v of
        Ref a \<Rightarrow>
          (if length h \<le> a then Inl TypeError
           else case h ! a of Array vs \<Rightarrow> Inr vs | _ \<Rightarrow> Inl TypeError)
      | _ \<Rightarrow> Inl TypeError)"

subsection \<open>Conversion to text\<close>

fun join_commas :: "string list \<Rightarrow> string" where
  "join_commas [] = []"
| "join_commas [s] = s"
| "join_commas (s # t # ts) = s @ '','' @ join_commas (t # ts)"

text \<open>
  \<open>to_string h stk v\<close> is the string conversion of a template literal. An array is
  joined with commas, \<open>undefined\<close> and \<open>null\<close> elements being empty; \<open>stk\<close> holds the
  arrays being joined, and an array met again inside itself is empty.
\<close>

function to_string :: "heap \<Rightarrow> addr list \<Rightarrow> val \<Rightarrow> string" where
  "to_string h stk Undefined = ''undefined''"
| "to_string h stk Null = ''null''"
| "to_string h stk (Bool b) = (if b then ''true'' else ''false'')"
| "to_string h stk (Num n) = show_int n"
| "to_string h stk (Str s) = s"
| "to_string h stk (Ref a) =
     (if a \<in> set stk \<or> length h \<le> a then []
      else case h ! a of
             Object ps \<Rightarrow> ''[object Object]''
           | Host c qs \<Rightarrow> ''[object '' @ c @ '']''
           | Array vs \<Rightarrow>
               join_commas
                 (map (\<lambda>v. if v = Undefined \<or> v = Null then [] else to_string h (a # stk) v) vs))"
  by pat_completeness auto
termination
proof (relation "measure (\<lambda>(h, stk, v). length h - card (set stk \<inter> {..<length h}))")
  show "wf (measure (\<lambda>(h, stk, v). length h - card (set stk \<inter> {..<length h})))"
    by simp
next
  fix h :: heap and stk :: "addr list" and a :: addr and vs :: "val list" and v :: val
  assume fresh: "\<not> (a \<in> set stk \<or> length h \<le> a)"
  have sub: "set stk \<inter> {..<length h} \<subseteq> {..<length h}"
    by simp
  have ins: "set (a # stk) \<inter> {..<length h} = insert a (set stk \<inter> {..<length h})"
    using fresh by auto
  have "card (insert a (set stk \<inter> {..<length h})) = Suc (card (set stk \<inter> {..<length h}))"
    using fresh by simp
  moreover have "card (insert a (set stk \<inter> {..<length h})) \<le> card {..<length h}"
    using fresh by (intro card_mono) auto
  ultimately show "((h, a # stk, v), (h, stk, Ref a))
      \<in> measure (\<lambda>(h, stk, v). length h - card (set stk \<inter> {..<length h}))"
    using ins by simp
qed

declare to_string.simps(6) [simp del]


subsection \<open>JSON.stringify and JSON.parse\<close>

fun collect :: "(error + 'a) list \<Rightarrow> error + 'a list" where
  "collect [] = Inr []"
| "collect (r # rs) =
     (case r of
        Inl e \<Rightarrow> Inl e
      | Inr x \<Rightarrow> (case collect rs of Inl e \<Rightarrow> Inl e | Inr xs \<Rightarrow> Inr (x # xs)))"

text \<open>A property whose value has no JSON form (\<open>undefined\<close>) is left out of an object.\<close>

fun members :: "string list \<Rightarrow> json option list \<Rightarrow> (string \<times> json) list" where
  "members (k # ks) (Some x # js) = (k, x) # members ks js"
| "members (k # ks) (None # js) = members ks js"
| "members ks js = []"

definition element :: "json option \<Rightarrow> json" where
  "element j = (case j of None \<Rightarrow> JNull | Some x \<Rightarrow> x)"

text \<open>
  \<open>serialize h stk v\<close> is \<open>JSON.stringify(v)\<close>, with \<open>stk\<close> the objects being
  serialized around \<open>v\<close>: \<open>None\<close> is the result \<open>undefined\<close>, a cyclic structure
  throws, a host object has no own enumerable property and gives \<open>{}\<close>, and an
  \<open>undefined\<close> array element gives \<open>null\<close>.
\<close>

function serialize :: "heap \<Rightarrow> addr list \<Rightarrow> val \<Rightarrow> error + json option" where
  "serialize h stk Undefined = Inr None"
| "serialize h stk Null = Inr (Some JNull)"
| "serialize h stk (Bool b) = Inr (Some (JBool b))"
| "serialize h stk (Num n) = Inr (Some (JNum n))"
| "serialize h stk (Str s) = Inr (Some (JStr s))"
| "serialize h stk (Ref a) =
     (if a \<in> set stk \<or> length h \<le> a then Inl TypeError
      else case h ! a of
             Host c qs \<Rightarrow> Inr (Some (JObj []))
           | Array vs \<Rightarrow>
               (case collect (map (serialize h (a # stk)) vs) of
                  Inl e \<Rightarrow> Inl e
                | Inr js \<Rightarrow> Inr (Some (JArr (map element js))))
           | Object ps \<Rightarrow>
               (case collect (map (\<lambda>p. serialize h (a # stk) (snd p)) ps) of
                  Inl e \<Rightarrow> Inl e
                | Inr js \<Rightarrow> Inr (Some (JObj (members (map fst ps) js)))))"
  by pat_completeness auto
termination
proof -
  let ?m = "\<lambda>(h :: heap, stk :: addr list, v :: val). length h - card (set stk \<inter> {..<length h})"
  have deeper: "((h, a # stk, v), (h, stk, Ref a)) \<in> measure ?m"
    if fresh: "\<not> (a \<in> set stk \<or> length h \<le> a)" for h stk a v
  proof -
    have "card (insert a (set stk \<inter> {..<length h})) \<le> card {..<length h}"
      using fresh by (intro card_mono) auto
    moreover have "card (insert a (set stk \<inter> {..<length h})) = Suc (card (set stk \<inter> {..<length h}))"
      using fresh by simp
    moreover have "set (a # stk) \<inter> {..<length h} = insert a (set stk \<inter> {..<length h})"
      using fresh by auto
    ultimately show ?thesis
      by simp
  qed
  show ?thesis
  proof (relation "measure ?m")
    show "wf (measure ?m)"
      by simp
  qed (blast intro: deeper)+
qed

declare serialize.simps(6) [simp del]

text \<open>
  \<open>revive j h\<close> is \<open>JSON.parse\<close> of the text denoting \<open>j\<close>: every array and object of
  the tree becomes a new object of the store.
\<close>

fun revive :: "json \<Rightarrow> heap \<Rightarrow> val \<times> heap"
  and revive_list :: "json list \<Rightarrow> heap \<Rightarrow> val list \<times> heap"
  and revive_props :: "(string \<times> json) list \<Rightarrow> heap \<Rightarrow> (string \<times> val) list \<times> heap" where
  "revive JNull h = (Null, h)"
| "revive (JBool b) h = (Bool b, h)"
| "revive (JNum n) h = (Num n, h)"
| "revive (JStr s) h = (Str s, h)"
| "revive (JArr js) h =
     (case revive_list js h of (vs, h') \<Rightarrow> (Ref (length h'), h' @ [Array vs]))"
| "revive (JObj ps) h =
     (case revive_props ps h of (qs, h') \<Rightarrow> (Ref (length h'), h' @ [Object qs]))"
| "revive_list [] h = ([], h)"
| "revive_list (j # js) h =
     (case revive j h of (v, h1) \<Rightarrow>
        (case revive_list js h1 of (vs, h2) \<Rightarrow> (v # vs, h2)))"
| "revive_props [] h = ([], h)"
| "revive_props ((k, j) # ps) h =
     (case revive j h of (v, h1) \<Rightarrow>
        (case revive_props ps h1 of (qs, h2) \<Rightarrow> ((k, v) # qs, h2)))"

text \<open>
  \<open>JSON.parse(JSON.stringify(v))\<close>: the text \<open>undefined\<close> is not JSON, so a value
  without a JSON form makes the parser throw.
\<close>

definition deep_copy :: "heap \<Rightarrow> val \<Rightarrow> error + val \<times> heap" where
  "deep_copy h v =
     (case serialize h [] v of
        Inl e \<Rightarrow> Inl e
      | Inr None \<Rightarrow> Inl SyntaxError
      | Inr (Some j) \<Rightarrow> Inr (revive j h))"


subsection \<open>String methods\<close>

fun is_prefix :: "string \<Rightarrow> string \<Rightarrow> bool" where
  "is_prefix [] s = True"
| "is_prefix (p # ps) [] = False"
| "is_prefix (p # ps) (c # cs) = (p = c \<and> is_prefix ps cs)"

fun includes_str :: "string \<Rightarrow> string \<Rightarrow> bool" where
  "includes_str [] pat = (pat = [])"
| "includes_str (c # cs) pat = (is_prefix pat (c # cs) \<or> includes_str cs pat)"

text \<open>
  \<open>includes_val h v pat\<close> is the method call \<open>v.includes(pat)\<close> with a string argument:
  a substring test on a string, a membership test on an array, and a type error on
  every other value, which has no callable \<open>includes\<close>.
\<close>

definition includes_val :: "heap \<Rightarrow> val \<Rightarrow> string \<Rightarrow> error + bool" where
  "includes_val h v pat =
     (case v of
        Str s \<Rightarrow> Inr (includes_str s pat)
      | Ref a \<Rightarrow>
          (if length h \<le> a then Inl TypeError
           else case h ! a of Array vs \<Rightarrow> Inr (Str pat \<in> set vs) | _ \<Rightarrow> Inl TypeError)
      | _ \<Rightarrow> Inl TypeError)"

text \<open>Upper-casing is modelled on the ASCII letters.\<close>

definition upper_char :: "char \<Rightarrow> char" where
  "upper_char c =
     (let n = (of_char c :: nat) in if 97 \<le> n \<and> n \<le> 122 then char_of (n - 32) else c)"

definition toUpperCase :: "val \<Rightarrow> error + string" where
  "toUpperCase v = (case v of Str s \<Rightarrow> Inr (map upper_char s) | _ \<Rightarrow> Inl TypeError)"

text \<open>
  \<open>object_keys h v\<close> is \<open>Object.keys(v)\<close>. The property list of a plain object is
  taken to be in enumeration order already.
\<close>

definition object_keys :: "heap \<Rightarrow> val \<Rightarrow> error + string list" where
  "object_keys h v =
     (case v of
        Undefined \<Rightarrow> Inl TypeError
      | Null \<Rightarrow> Inl TypeError
      | Bool b \<Rightarrow> Inr []
      | Num n \<Rightarrow> Inr []
      | Str s \<Rightarrow> Inr (map show_nat [0..<length s])
      | Ref a \<Rightarrow>
          (if length h \<le> a then Inr []
           else case h ! a of
                  Object ps \<Rightarrow> Inr (map fst ps)
                | Array vs \<Rightarrow> Inr (map show_nat [0..<length vs])
                | Host c qs \<Rightarrow> Inr []))"

section \<open>The page\<close>

record button =
  disabled :: bool
  label :: string

record request =
  req_url :: string
  req_body :: "json option"
  req_contentType :: string
  req_csrf :: val

text \<open>Hooks of the embedded editor that the script calls.\<close>

datatype hook = TextEdited | BottomInfoEdited | FetchSetSymbol

text \<open>What a handler does to the world outside the script, in order.\<close>

datatype effect =
    Notify string nat
  | Get string
  | Post request
  | ConsoleError string
  | Call hook
  | Navigate string
  | Reload

text \<open>
  The state of the page: the object store and the editor's globals \<open>card\<close> and
  \<open>selectedTextIndex\<close>, the script's \<open>ScryfallTimer\<close>, the browser's pending timers of
  the script (identifier and due time in milliseconds) with its supply of identifiers,
  the widgets the script reads and writes (\<open>text_editor\<close> is the text last put
  into \<open>#text-editor\<close>, by the user or by the script), and the effects so far.
\<close>

record page =
  store :: heap
  the_card :: val
  selectedTextIndex :: int
  ScryfallTimer :: "nat option"
  pending :: "(nat \<times> nat) list"
  next_timer :: nat
  text_editor :: string
  set_symbol_rarity :: int
  info_rarity :: string
  saveBtn :: button
  effects :: "effect list"

text \<open>
  The constants the page template injects: \<open>cardId\<close> is a number or \<open>null\<close>,
  \<open>setId\<close> a number.
\<close>

record page_consts =
  cardId :: "int option"
  setId :: int
  SAVE_URL :: string
  EDITING_BACK :: bool

section \<open>Saving a card\<close>

text \<open>
  What the click handler reads from its surroundings: the result of \<open>getCardName()\<close>,
  the value of the \<open>#autoFrame\<close> select, the result of \<open>cardCanvas.toDataURL\<close>
  (which throws on a tainted canvas) and the \<open>csrftoken\<close> cookie.
\<close>

record save_env =
  getCardName :: val
  autoFrame_val :: val
  toDataURL :: "error + string"
  csrftoken :: val

text \<open>
  The two \<open>forEach\<close> loops (\<open>creator.js\<close>, lines 98 to 101). The callbacks only
  delete properties of plain objects, so
  no array changes while it is traversed, and each loop runs over the elements it found.
\<close>

fun strip_masks :: "heap \<Rightarrow> val list \<Rightarrow> heap \<times> error option" where
  "strip_masks h [] = (h, None)"
| "strip_masks h (m # ms) =
     (case delete_prop h m ''image'' of
        Inl e \<Rightarrow> (h, Some e)
      | Inr h' \<Rightarrow> strip_masks h' ms)"

definition strip_frame :: "heap \<Rightarrow> val \<Rightarrow> heap \<times> error option" where
  "strip_frame h frame =
     (case delete_prop h frame ''image'' of
        Inl e \<Rightarrow> (h, Some e)
      | Inr h1 \<Rightarrow>
          (case get_prop h1 frame ''masks'' of
             Inl e \<Rightarrow> (h1, Some e)
           | Inr mv \<Rightarrow>
               (case array_elems h1 mv of
                  Inl e \<Rightarrow> (h1, Some e)
                | Inr ms \<Rightarrow> strip_masks h1 ms)))"

fun strip_frames :: "heap \<Rightarrow> val list \<Rightarrow> heap \<times> error option" where
  "strip_frames h [] = (h, None)"
| "strip_frames h (frame # frames) =
     (case strip_frame h frame of
        (h', Some e) \<Rightarrow> (h', Some e)
      | (h', None) \<Rightarrow> strip_frames h' frames)"

text \<open>
  The copy of the card, stripped and with the auto-frame selection attached: the final
  store, and the copy or the error thrown on the way.
\<close>

definition prepare_card :: "val \<Rightarrow> heap \<Rightarrow> val \<Rightarrow> heap \<times> (error + val)" where
  "prepare_card af h c =
     (case deep_copy h c of
        Inl e \<Rightarrow> (h, Inl e)
      | Inr (cardToSave, h1) \<Rightarrow>
          (case get_prop h1 cardToSave ''frames'' of
             Inl e \<Rightarrow> (h1, Inl e)
           | Inr fv \<Rightarrow>
               (case array_elems h1 fv of
                  Inl e \<Rightarrow> (h1, Inl e)
                | Inr frames \<Rightarrow>
                    (case strip_frames h1 frames of
                       (h2, Some e) \<Rightarrow> (h2, Inl e)
                     | (h2, None) \<Rightarrow>
                         (case set_prop h2 cardToSave ''autoFrame'' af of
                            Inl e \<Rightarrow> (h2, Inl e)
                          | Inr h3 \<Rightarrow> (h3, Inr cardToSave))))))"

definition request_data :: "page_consts \<Rightarrow> val \<Rightarrow> string \<Rightarrow> (string \<times> val) list" where
  "request_data c cardToSave imageDataURL =
     (let data = [(''pk'', (case cardId c of None \<Rightarrow> Null | Some n \<Rightarrow> Num n)),
                  (''set'', Num (setId c))]
      in if EDITING_BACK c
         then put ''back_image'' (Str imageDataURL) (put ''back'' cardToSave data)
         else put ''front_image'' (Str imageDataURL) (put ''front'' cardToSave data))"

text \<open>
  The click handler of the save button (\<open>creator.js\<close>, lines 85 to 137, up to the
  call of \<open>$.post\<close>). The result is the new page and the error the
  handler threw, if any.
\<close>

definition saveBtn_click :: "page_consts \<Rightarrow> save_env \<Rightarrow> page \<Rightarrow> page \<times> error option" where
  "saveBtn_click c env s =
     (let name = getCardName env in
      if \<not> truthy name \<or> name = Str ''unnamed'' then
        (s\<lparr>effects := effects s @ [Notify ''You must give your card a name to save it!'' 5]\<rparr>,
         None)
      else
        let s1 = s\<lparr>saveBtn := \<lparr>disabled = True, label = ''Saving...''\<rparr>\<rparr> in
        case prepare_card (autoFrame_val env) (store s1) (the_card s1) of
          (h3, Inl e) \<Rightarrow> (s1\<lparr>store := h3\<rparr>, Some e)
        | (h3, Inr cardToSave) \<Rightarrow>
            (case toDataURL env of
               Inl e \<Rightarrow> (s1\<lparr>store := h3\<rparr>, Some e)
             | Inr imageDataURL \<Rightarrow>
                 let h4 = h3 @ [Object (request_data c cardToSave imageDataURL)] in
                 case serialize h4 [] (Ref (length h3)) of
                   Inl e \<Rightarrow> (s1\<lparr>store := h4\<rparr>, Some e)
                 | Inr body \<Rightarrow>
                     (s1\<lparr>store := h4,
                         effects := effects s1 @
                           [Post \<lparr>req_url = SAVE_URL c, req_body = body,
                                  req_contentType = ''application/json; charset=utf-8'',
                                  req_csrf = csrftoken env\<rparr>]\<rparr>,
                      None)))"

text \<open>The two callbacks of the save request (\<open>creator.js\<close>, lines 129 to 136).\<close>

definition save_done :: "val \<Rightarrow> page \<Rightarrow> page \<times> error option" where
  "save_done data s =
     (let s1 = s\<lparr>saveBtn := (saveBtn s)\<lparr>label := ''Saved!''\<rparr>\<rparr> in
      case get_prop (store s1) data ''view_url'' of
        Inl e \<Rightarrow> (s1, Some e)
      | Inr u \<Rightarrow> (s1\<lparr>effects := effects s1 @ [Navigate (to_string (store s1) [] u)]\<rparr>, None))"

definition save_fail :: "page \<Rightarrow> page" where
  "save_fail s =
     s\<lparr>saveBtn := \<lparr>disabled = False, label = ''Save Card''\<rparr>,
       effects := effects s @ [Notify ''There was an error saving your card.'' 5]\<rparr>"

section \<open>The mana cost lookup\<close>

text \<open>
  \<open>card.text[Object.keys(card.text)[selectedTextIndex]]\<close>: an index outside the array
  of keys reads as \<open>undefined\<close>, and \<open>undefined\<close> used as a property key is the
  string \<open>undefined\<close>.
\<close>

definition selected_key :: "string list \<Rightarrow> int \<Rightarrow> string" where
  "selected_key ks i = (if 0 \<le> i \<and> i < int (length ks) then ks ! nat i else ''undefined'')"

definition selected_text :: "page \<Rightarrow> error + val" where
  "selected_text s =
     (case get_prop (store s) (the_card s) ''text'' of
        Inl e \<Rightarrow> Inl e
      | Inr t \<Rightarrow>
          (case object_keys (store s) t of
             Inl e \<Rightarrow> Inl e
           | Inr ks \<Rightarrow> get_prop (store s) t (selected_key ks (selectedTextIndex s))))"

definition parse_mana_url :: string where
  "parse_mana_url = ''https://api.scryfall.com/symbology/parse-mana?cost=''"

datatype lookup = Threw error | NotManaCost | Awaiting

text \<open>
  \<open>checkScryfall\<close> (\<open>creator.js\<close>, lines 13 to 36) up to its \<open>await\<close>: it
  throws, or finds another text selected,
  or sends the request and waits.
\<close>

definition checkScryfall_start :: "page \<Rightarrow> page \<times> lookup" where
  "checkScryfall_start s =
     (case selected_text s of
        Inl e \<Rightarrow> (s, Threw e)
      | Inr selectedText \<Rightarrow>
          (case get_prop (store s) selectedText ''name'' of
             Inl e \<Rightarrow> (s, Threw e)
           | Inr n \<Rightarrow>
               (case includes_val (store s) n ''Mana Cost'' of
                  Inl e \<Rightarrow> (s, Threw e)
                | Inr False \<Rightarrow> (s, NotManaCost)
                | Inr True \<Rightarrow>
                    (case get_prop (store s) selectedText ''text'' of
                       Inl e \<Rightarrow> (s, Threw e)
                     | Inr t \<Rightarrow>
                         (s\<lparr>effects := effects s @
                              [Get (parse_mana_url @ to_string (store s) [] t)]\<rparr>,
                          Awaiting)))))"

text \<open>The request is settled with the parsed reply or with the failed request object.\<close>

datatype reply = Resolved val | Rejected val

definition scryfall_error :: string where
  "scryfall_error = ''Error parsing mana cost with Scryfall API: ''"

text \<open>
  \<open>checkScryfall\<close> from the \<open>await\<close> on, on the page as it is when the reply arrives.
  The field of \<open>#text-editor\<close> holds text: \<open>.val(x)\<close> with a truthy \<open>x\<close> leaves the
  string form of \<open>x\<close> in it.
\<close>

definition checkScryfall_resume :: "reply \<Rightarrow> page \<Rightarrow> page \<times> error option" where
  "checkScryfall_resume r s =
     (case r of
        Rejected err \<Rightarrow>
          (case get_prop (store s) err ''status'' of
             Inl e \<Rightarrow> (s, Some e)
           | Inr status \<Rightarrow>
               (let msg = scryfall_error @ to_string (store s) [] status in
                case get_prop (store s) err ''responseJSON'' of
                  Inl e \<Rightarrow> (s, Some e)
                | Inr rj \<Rightarrow>
                    if truthy rj then
                      (case get_prop (store s) rj ''details'' of
                         Inl e \<Rightarrow> (s, Some e)
                       | Inr d \<Rightarrow>
                           (s\<lparr>effects := effects s @
                                [ConsoleError (msg @ '' - '' @ to_string (store s) [] d)]\<rparr>,
                            None))
                    else (s\<lparr>effects := effects s @ [ConsoleError msg]\<rparr>, None)))
      | Resolved result \<Rightarrow>
          (case get_prop (store s) result ''cost'' of
             Inl e \<Rightarrow> (s, Some e)
           | Inr cost \<Rightarrow>
               if truthy cost then
                 (s\<lparr>text_editor := to_string (store s) [] cost,
                     effects := effects s @ [Call TextEdited]\<rparr>,
                  None)
               else (s, None)))"

text \<open>
  One whole run of \<open>checkScryfall\<close>. The function is suspended at its \<open>await\<close>, and
  until the reply arrives other handlers run: \<open>between\<close> is what they do to the page.
  The reply and \<open>between\<close> come into play only if a request is sent.
\<close>

definition checkScryfall :: "reply \<Rightarrow> (page \<Rightarrow> page) \<Rightarrow> page \<Rightarrow> page \<times> error option" where
  "checkScryfall r between s =
     (case checkScryfall_start s of
        (s1, Threw e) \<Rightarrow> (s1, Some e)
      | (s1, NotManaCost) \<Rightarrow> (s1, None)
      | (s1, Awaiting) \<Rightarrow> checkScryfall_resume r (between s1))"

text \<open>The page when the reply arrives, for a run that sends its request from \<open>s\<close>.\<close>

definition at_reply :: "(page \<Rightarrow> page) \<Rightarrow> page \<Rightarrow> page" where
  "at_reply between s = between (fst (checkScryfall_start s))"

subsection \<open>The debounce timer\<close>

text \<open>
  \<open>restartScryfallTimer\<close> (\<open>creator.js\<close>, lines 38 to 41) with the browser's two
  timer functions: clearing \<open>null\<close> or a timer that has fired does nothing.
\<close>

definition clearTimeout :: "nat option \<Rightarrow> page \<Rightarrow> page" where
  "clearTimeout t s =
     (case t of None \<Rightarrow> s | Some i \<Rightarrow> s\<lparr>pending := filter (\<lambda>p. fst p \<noteq> i) (pending s)\<rparr>)"

definition setTimeout :: "nat \<Rightarrow> nat \<Rightarrow> page \<Rightarrow> nat \<times> page" where
  "setTimeout now delay s =
     (next_timer s,
      s\<lparr>pending := pending s @ [(next_timer s, now + delay)], next_timer := Suc (next_timer s)\<rparr>)"

definition restartScryfallTimer :: "nat \<Rightarrow> page \<Rightarrow> page" where
  "restartScryfallTimer now s =
     (case setTimeout now 1000 (clearTimeout (ScryfallTimer s) s) of
        (i, s') \<Rightarrow> s'\<lparr>ScryfallTimer := Some i\<rparr>)"

text \<open>
  The event loop reaching time \<open>now\<close>: the timers that are due leave the table and run
  \<open>checkScryfall\<close>, earliest first. An error thrown there rejects the promise of the
  call and is lost.
\<close>

definition advance :: "nat \<Rightarrow> page \<Rightarrow> page" where
  "advance now s =
     foldl (\<lambda>s' p. fst (checkScryfall_start s'))
       (s\<lparr>pending := filter (\<lambda>p. \<not> snd p \<le> now) (pending s)\<rparr>)
       (sort_key snd (filter (\<lambda>p. snd p \<le> now) (pending s)))"

text \<open>
  Modelled from the spec: the embedded editor, which owns the card data model and is
  not part of these sources, keeps the text of the selected text box in step with the
  text field. It is the editor's own handler of the input event.
\<close>

definition editor_store_text :: "string \<Rightarrow> page \<Rightarrow> page" where
  "editor_store_text txt s =
     (case selected_text s of
        Inl e \<Rightarrow> s
      | Inr d \<Rightarrow>
          (case set_prop (store s) d ''text'' (Str txt) of
             Inl e \<Rightarrow> s
           | Inr h \<Rightarrow> s\<lparr>store := h\<rparr>))"

text \<open>
  An input event on \<open>#text-editor\<close> at time \<open>now\<close>, the field then holding \<open>txt\<close>:
  the editor's handler, then the script's.
\<close>

definition text_editor_input :: "nat \<Rightarrow> string \<Rightarrow> page \<Rightarrow> page" where
  "text_editor_input now txt s =
     restartScryfallTimer now (editor_store_text txt (s\<lparr>text_editor := txt\<rparr>))"

fun run_inputs :: "(nat \<times> string) list \<Rightarrow> page \<Rightarrow> page" where
  "run_inputs [] s = s"
| "run_inputs ((t, txt) # es) s = run_inputs es (text_editor_input t txt (advance t s))"

section \<open>The rarity dropdown\<close>

definition RARITIES :: "(string \<times> string) list" where
  "RARITIES =
     [('''', ''Select Rarity''),
      (''C'', ''Common''),
      (''U'', ''Uncommon''),
      (''R'', ''Rare''),
      (''M'', ''Mythic Rare'')]"

text \<open>
  The dropdown (\<open>creator.js\<close>, lines 64 to 72) gets one option per entry of
  \<open>RARITIES\<close>, with the first component as
  value and the second as text. Its value is the value of the selected option, or
  \<open>null\<close> when none is selected.
\<close>

definition dropdown_options :: "(string \<times> string) list" where
  "dropdown_options = map (\<lambda>rarity. (fst rarity, snd rarity)) RARITIES"

definition dropdown_val :: "int \<Rightarrow> val" where
  "dropdown_val i =
     (if 0 \<le> i \<and> i < int (length dropdown_options) then Str (fst (dropdown_options ! nat i))
      else Null)"

definition dropdown_input :: "page \<Rightarrow> page \<times> error option" where
  "dropdown_input s =
     (case toUpperCase (dropdown_val (set_symbol_rarity s)) of
        Inl e \<Rightarrow> (s, Some e)
      | Inr u \<Rightarrow> (s\<lparr>info_rarity := u, effects := effects s @ [Call BottomInfoEdited]\<rparr>, None))"

definition dropdown_change :: "page \<Rightarrow> page" where
  "dropdown_change s = s\<lparr>effects := effects s @ [Call FetchSetSymbol]\<rparr>"

text \<open>
  The user picks option \<open>i\<close>: the browser selects it and fires the input event, then
  the change event.
\<close>

definition select_rarity :: "nat \<Rightarrow> page \<Rightarrow> page" where
  "select_rarity i s = dropdown_change (fst (dropdown_input (s\<lparr>set_symbol_rarity := int i\<rparr>)))"

text \<open>
  The user edits \<open>#info-rarity\<close> directly: the browser stores the text; the script has
  no handler on that field.
\<close>

definition info_rarity_input :: "string \<Rightarrow> page \<Rightarrow> page" where
  "info_rarity_input txt s = s\<lparr>info_rarity := txt\<rparr>"

section \<open>Removing the back face\<close>

text \<open>
  The click handler of \<open>#remove-back-btn\<close> in the script of the card view template,
  given the URL the
  template rendered, the answer to \<open>window.confirm\<close> and the \<open>csrftoken\<close> cookie.
\<close>

definition remove_back_click :: "string \<Rightarrow> bool \<Rightarrow> val \<Rightarrow> page \<Rightarrow> page \<times> error option" where
  "remove_back_click remove_url confirmed token s =
     (if confirmed then
        let h = store s @ [Object []] in
        case serialize h [] (Ref (length (store s))) of
          Inl e \<Rightarrow> (s\<lparr>store := h\<rparr>, Some e)
        | Inr body \<Rightarrow>
            (s\<lparr>store := h,
                effects := effects s @
                  [Post \<lparr>req_url = remove_url, req_body = body,
                         req_contentType = ''application/json; charset=utf-8'',
                         req_csrf = token\<rparr>]\<rparr>,
             None)
      else (s, None))"

definition remove_back_done :: "page \<Rightarrow> page" where
  "remove_back_done s = s\<lparr>effects := effects s @ [Reload]\<rparr>"

section \<open>Observations on requests\<close>

text \<open>The keys of the JSON object a request carries, in order.\<close>

definition body_keys :: "request \<Rightarrow> string list" where
  "body_keys r = (case req_body r of Some (JObj ps) \<Rightarrow> map fst ps | _ \<Rightarrow> [])"

definition has_key :: "string \<Rightarrow> json \<Rightarrow> bool" where
  "has_key k j = (case j of JObj ps \<Rightarrow> k \<in> set (map fst ps) | _ \<Rightarrow> False)"

definition field :: "string \<Rightarrow> json \<Rightarrow> json option" where
  "field k j = (case j of JObj ps \<Rightarrow> map_of ps k | _ \<Rightarrow> None)"

definition elements :: "json option \<Rightarrow> json list" where
  "elements j = (case j of Some (JArr js) \<Rightarrow> js | _ \<Rightarrow> [])"

text \<open>
  A card face in a request is free of image handles when no frame of its \<open>frames\<close>
  sequence and no mask of any frame has an \<open>image\<close> field.
\<close>

definition image_free :: "json \<Rightarrow> bool" where
  "image_free face =
     (\<forall>frame \<in> set (elements (field ''frames'' face)).
        \<not> has_key ''image'' frame \<and>
        (\<forall>m \<in> set (elements (field ''masks'' frame)). \<not> has_key ''image'' m))"

text \<open>The card faces a request body carries under \<open>front\<close> and \<open>back\<close>.\<close>

definition faces :: "request \<Rightarrow> json list" where
  "faces r =
     (case req_body r of
        Some j \<Rightarrow> (case field ''front'' j of Some f \<Rightarrow> [f] | None \<Rightarrow> []) @
                  (case field ''back'' j of Some f \<Rightarrow> [f] | None \<Rightarrow> [])
      | None \<Rightarrow> [])"

section \<open>An example page\<close>

text \<open>
  A card with two text boxes and one frame; the frame and its mask hold an image
  element each. The store also holds a reply of the mana symbol API, a failed request
  with its error body, and a reply of the save API.
\<close>

definition example_store :: heap where
  "example_store =
     [Object [(''text'', Ref 1), (''frames'', Ref 4)],
      Object [(''mana'', Ref 2), (''title'', Ref 3)],
      Object [(''name'', Str ''Mana Cost''), (''text'', Str ''2W'')],
      Object [(''name'', Str ''Title''), (''text'', Str ''Angel'')],
      Array [Ref 5],
      Object [(''name'', Str ''Frame''), (''image'', Ref 6), (''masks'', Ref 7)],
      Host ''HTMLImageElement'' [(''name'', Str []), (''src'', Str ''/img/frame.png'')],
      Array [Ref 8],
      Object [(''name'', Str ''Pinline''), (''image'', Ref 9)],
      Host ''HTMLImageElement'' [(''name'', Str []), (''src'', Str ''/img/pinline.png'')],
      Object [(''cost'', Str ''{2}{W}'')],
      Object [(''status'', Num 404), (''responseJSON'', Ref 12)],
      Object [(''details'', Str ''bad cost'')],
      Object [(''view_url'', Str ''/cards/7/'')]]"

definition example_page :: page where
  "example_page =
     \<lparr>store = example_store, the_card = Ref 0, selectedTextIndex = 0, ScryfallTimer = None,
      pending = [], next_timer = 1, text_editor = ''2W'', set_symbol_rarity = 0,
      info_rarity = ''P'', saveBtn = \<lparr>disabled = False, label = ''Save Card''\<rparr>,
      effects = []\<rparr>"

definition example_consts :: page_consts where
  "example_consts =
     \<lparr>cardId = Some 7, setId = 3, SAVE_URL = ''/api/cards/7/'', EDITING_BACK = False\<rparr>"

definition example_env :: save_env where
  "example_env =
     \<lparr>getCardName = Str ''Angel'', autoFrame_val = Str ''false'',
      toDataURL = Inr ''data:image/png;base64,iVBORw0KGgo='', csrftoken = Str ''token''\<rparr>"

text \<open>The body of the save request that a click on the example page sends.\<close>

definition example_body :: json where
  "example_body =
     JObj [(''pk'', JNum 7), (''set'', JNum 3),
           (''front'',
            JObj [(''text'',
                   JObj [(''mana'', JObj [(''name'', JStr ''Mana Cost''), (''text'', JStr ''2W'')]),
                         (''title'', JObj [(''name'', JStr ''Title''), (''text'', JStr ''Angel'')])]),
                  (''frames'',
                   JArr [JObj [(''name'', JStr ''Frame''),
                               (''masks'', JArr [JObj [(''name'', JStr ''Pinline'')]])]]),
                  (''autoFrame'', JStr ''false'')]),
           (''front_image'', JStr ''data:image/png;base64,iVBORw0KGgo='')]"

definition example_request :: request where
  "example_request =
     \<lparr>req_url = ''/api/cards/7/'', req_body = Some example_body,
      req_contentType = ''application/json; charset=utf-8'', req_csrf = Str ''token''\<rparr>"

section \<open>Conditions on the selected text box\<close>

text \<open>
  The name of the selected text box marks it as the mana cost box: the test that
  \<open>checkScryfall\<close> makes before it sends a request.
\<close>

definition marks_mana_cost :: "page \<Rightarrow> bool" where
  "marks_mana_cost s =
     (case selected_text s of
        Inl e \<Rightarrow> False
      | Inr d \<Rightarrow>
          (case get_prop (store s) d ''name'' of
             Inl e \<Rightarrow> False
           | Inr n \<Rightarrow> includes_val (store s) n ''Mana Cost'' = Inr True))"

text \<open>The text mapping of the card with its keys, when both can be read.\<close>

definition text_keys :: "page \<Rightarrow> (val \<times> string list) option" where
  "text_keys s =
     (case get_prop (store s) (the_card s) ''text'' of
        Inl e \<Rightarrow> None
      | Inr t \<Rightarrow> (case object_keys (store s) t of Inl e \<Rightarrow> None | Inr ks \<Rightarrow> Some (t, ks)))"

text \<open>\<open>selectedTextIndex\<close> is a valid index into the text entries.\<close>

definition index_valid :: "page \<Rightarrow> bool" where
  "index_valid s =
     (case text_keys s of
        None \<Rightarrow> False
      | Some (t, ks) \<Rightarrow> 0 \<le> selectedTextIndex s \<and> selectedTextIndex s < int (length ks))"

text \<open>
  The value has a field \<open>k\<close>: an own property of a plain object, or a property that a
  host object carries.
\<close>

definition has_field :: "heap \<Rightarrow> val \<Rightarrow> string \<Rightarrow> bool" where
  "has_field h v k =
     (case v of
        Ref a \<Rightarrow>
          a < length h \<and>
          (case h ! a of
             Object ps \<Rightarrow> k \<in> set (map fst ps)
           | Array vs \<Rightarrow> False
           | Host c qs \<Rightarrow> k \<in> set (map fst qs))
      | _ \<Rightarrow> False)"

text \<open>The entry at \<open>selectedTextIndex\<close> has a \<open>name\<close> field.\<close>

definition entry_has_name :: "page \<Rightarrow> bool" where
  "entry_has_name s =
     (case text_keys s of
        None \<Rightarrow> False
      | Some (t, ks) \<Rightarrow>
          (case get_prop (store s) t (ks ! nat (selectedTextIndex s)) of
             Inl e \<Rightarrow> False
           | Inr d \<Rightarrow> has_field (store s) d ''name''))"

text \<open>The descriptor that \<open>checkScryfall\<close> reads has a \<open>name\<close> field.\<close>

definition descriptor_has_name :: "page \<Rightarrow> bool" where
  "descriptor_has_name s =
     (case selected_text s of Inl e \<Rightarrow> False | Inr d \<Rightarrow> has_field (store s) d ''name'')"

text \<open>The text mapping has an entry under the key \<open>undefined\<close>.\<close>

definition undefined_entry :: "page \<Rightarrow> bool" where
  "undefined_entry s =
     (case text_keys s of None \<Rightarrow> False | Some (t, ks) \<Rightarrow> has_field (store s) t ''undefined'')"

text \<open>A card whose only text box is stored under the key \<open>undefined\<close>.\<close>

definition undefined_key_page :: page where
  "undefined_key_page =
     \<lparr>store =
        [Object [(''text'', Ref 1), (''frames'', Ref 3)],
         Object [(''undefined'', Ref 2)],
         Object [(''name'', Str ''Mana Cost''), (''text'', Str ''W'')],
         Array []],
      the_card = Ref 0, selectedTextIndex = 1, ScryfallTimer = None,
      pending = [], next_timer = 1, text_editor = ''W'', set_symbol_rarity = 0,
      info_rarity = [], saveBtn = \<lparr>disabled = False, label = ''Save Card''\<rparr>,
      effects = []\<rparr>"

text \<open>
  The same card with the first text box selected, the box being stored as the number 0
  instead of a descriptor.
\<close>

definition undefined_key_entry_page :: page where
  "undefined_key_entry_page =
     \<lparr>store =
        [Object [(''text'', Ref 1), (''frames'', Ref 2)],
         Object [(''mana'', Num 0)],
         Array []],
      the_card = Ref 0, selectedTextIndex = 0, ScryfallTimer = None,
      pending = [], next_timer = 1, text_editor = [], set_symbol_rarity = 0,
      info_rarity = [], saveBtn = \<lparr>disabled = False, label = ''Save Card''\<rparr>,
      effects = []\<rparr>"

text \<open>The user selects the second text box, the title, while a lookup is in flight.\<close>

definition select_title :: "page \<Rightarrow> page" where
  "select_title p = p\<lparr>selectedTextIndex := 1\<rparr>"

section \<open>Fresh and old objects\<close>

text \<open>
  Relative to a boundary \<open>n\<close> between the objects that existed before a handler ran
  and those it allocated: a value is fresh when it is no reference below \<open>n\<close>, an
  object when all values it holds are, a store is closed above \<open>n\<close> when every object
  from \<open>n\<close> on is fresh, and two stores agree below \<open>n\<close> when the second has every
  object of the first below \<open>n\<close> unchanged.
\<close>

definition val_fresh :: "nat \<Rightarrow> val \<Rightarrow> bool" where
  "val_fresh n v = (case v of Ref a \<Rightarrow> n \<le> a | _ \<Rightarrow> True)"

definition obj_fresh :: "nat \<Rightarrow> obj \<Rightarrow> bool" where
  "obj_fresh n ob =
     (case ob of
        Object ps \<Rightarrow> list_all (\<lambda>p. val_fresh n (snd p)) ps
      | Array vs \<Rightarrow> list_all (val_fresh n) vs
      | Host c qs \<Rightarrow> list_all (\<lambda>p. val_fresh n (snd p)) qs)"

definition closed_above :: "nat \<Rightarrow> heap \<Rightarrow> bool" where
  "closed_above n h = (\<forall>a. n \<le> a \<and> a < length h \<longrightarrow> obj_fresh n (h ! a))"

definition agree_below :: "nat \<Rightarrow> heap \<Rightarrow> heap \<Rightarrow> bool" where
  "agree_below n h h' = (length h \<le> length h' \<and> (\<forall>a < n. h' ! a = h ! a))"

section \<open>Stripped frames in the store\<close>

text \<open>
  What the stripping establishes, stated on the store: a value is without image when
  it is not a plain object with an \<open>image\<close> property; a frame is stripped when it is
  a plain object without \<open>image\<close> whose \<open>masks\<close> is an array of values without image,
  or when it is a host object, which has no own property at all; a card is stripped
  when it is a plain object whose \<open>frames\<close> is an array of stripped frames, or a host
  object.
\<close>

definition no_image :: "heap \<Rightarrow> val \<Rightarrow> bool" where
  "no_image h v =
     (\<forall>a ps. v = Ref a \<and> a < length h \<and> h ! a = Object ps \<longrightarrow> ''image'' \<notin> fst ` set ps)"

definition host_value :: "heap \<Rightarrow> val \<Rightarrow> bool" where
  "host_value h v = (\<exists>a c qs. v = Ref a \<and> a < length h \<and> h ! a = Host c qs)"

definition frame_plain :: "heap \<Rightarrow> val \<Rightarrow> bool" where
  "frame_plain h f =
     (\<exists>a ps m ms. f = Ref a \<and> a < length h \<and> h ! a = Object ps \<and> ''image'' \<notin> fst ` set ps
        \<and> map_of ps ''masks'' = Some (Ref m) \<and> m < length h \<and> h ! m = Array ms
        \<and> (\<forall>x \<in> set ms. no_image h x))"

definition frame_stripped :: "heap \<Rightarrow> val \<Rightarrow> bool" where
  "frame_stripped h f = (frame_plain h f \<or> host_value h f)"

definition card_plain :: "heap \<Rightarrow> val \<Rightarrow> bool" where
  "card_plain h c =
     (\<exists>b ps fa fs. c = Ref b \<and> b < length h \<and> h ! b = Object ps
        \<and> map_of ps ''frames'' = Some (Ref fa) \<and> fa < length h \<and> h ! fa = Array fs
        \<and> (\<forall>f \<in> set fs. frame_stripped h f))"

definition card_stripped :: "heap \<Rightarrow> val \<Rightarrow> bool" where
  "card_stripped h c = (card_plain h c \<or> host_value h c)"

text \<open>
  The second store comes from the first by steps that add no \<open>image\<close> property and
  leave arrays, host objects and the \<open>frames\<close> and \<open>masks\<close> properties as they are.
\<close>

definition keeps :: "heap \<Rightarrow> heap \<Rightarrow> bool" where
  "keeps h h' =
     (length h' = length h \<and>
      (\<forall>a < length h.
         (\<forall>ps. h ! a = Object ps \<longrightarrow>
            (\<exists>ps'. h' ! a = Object ps'
               \<and> (''image'' \<in> fst ` set ps' \<longrightarrow> ''image'' \<in> fst ` set ps)
               \<and> map_of ps' ''masks'' = map_of ps ''masks''
               \<and> map_of ps' ''frames'' = map_of ps ''frames''))
         \<and> ((\<forall>ps. h ! a \<noteq> Object ps) \<longrightarrow> h' ! a = h ! a)))"

section \<open>Conditions on runs of input events\<close>

text \<open>
  Consecutive events are in time order and less than the debounce delay of 1000
  milliseconds apart.
\<close>

fun within_window :: "(nat \<times> string) list \<Rightarrow> bool" where
  "within_window [] = True"
| "within_window [e] = True"
| "within_window (e # e' # es) =
     (fst e \<le> fst e' \<and> fst e' < fst e + 1000 \<and> within_window (e' # es))"

text \<open>
  The mana cost box is the selected text box: \<open>card\<close> is an object whose \<open>text\<close> is
  an object, the selected descriptor is a third, plain object, and its \<open>name\<close> is a
  string that includes \<open>Mana Cost\<close>.
\<close>

definition mana_box :: "heap \<Rightarrow> val \<Rightarrow> error + val \<Rightarrow> bool" where
  "mana_box h cv sel =
     (case cv of
        Ref c \<Rightarrow>
          (case get_prop h (Ref c) ''text'' of
             Inr (Ref t) \<Rightarrow>
               (case sel of
                  Inr (Ref d) \<Rightarrow>
                    d \<noteq> c \<and> d \<noteq> t \<and> d < length h \<and>
                    (case h ! d of
                       Object ps \<Rightarrow>
                         (case map_of ps ''name'' of
                            Some (Str n) \<Rightarrow> includes_str n ''Mana Cost''
                          | _ \<Rightarrow> False)
                     | _ \<Rightarrow> False)
                | _ \<Rightarrow> False)
           | _ \<Rightarrow> False)
      | _ \<Rightarrow> False)"

definition mana_cost_selected :: "page \<Rightarrow> bool" where
  "mana_cost_selected s = mana_box (store s) (the_card s) (selected_text s)"

text \<open>
  The state between two events of a run that started in \<open>s0\<close>, the last event having
  come at time \<open>t\<close> with text \<open>txt\<close>: one timer is pending, due at \<open>t + 1000\<close>, and
  \<open>ScryfallTimer\<close> holds it; nothing has been requested; the selected descriptor
  holds \<open>txt\<close>.
\<close>

definition armed :: "page \<Rightarrow> nat \<Rightarrow> string \<Rightarrow> page \<Rightarrow> bool" where
  "armed s0 t txt s =
     (mana_cost_selected s
      \<and> (\<exists>i. pending s = [(i, t + 1000)] \<and> ScryfallTimer s = Some i)
      \<and> effects s = effects s0
      \<and> (\<exists>d. selected_text s = Inr (Ref d) \<and> get_prop (store s) (Ref d) ''text'' = Inr (Str txt)))"

section \<open>Facts about the store operations\<close>

lemma serialize_ref_some: "serialize h stk (Ref a) = Inr r \<Longrightarrow> r \<noteq> None"
  by (auto simp: serialize.simps split: if_splits obj.splits sum.splits)

lemma serialize_object:
  "a \<notin> set stk \<Longrightarrow> a < length h \<Longrightarrow> h ! a = Object ps \<Longrightarrow>
   serialize h stk (Ref a) =
     (case collect (map (\<lambda>p. serialize h (a # stk) (snd p)) ps) of
        Inl e \<Rightarrow> Inl e
      | Inr js \<Rightarrow> Inr (Some (JObj (members (map fst ps) js))))"
  by (simp add: serialize.simps)

lemma get_prop_ref: "get_prop h v k = Inr (Ref a) \<Longrightarrow> \<exists>b. v = Ref b"
  by (auto simp: get_prop_def split: val.splits if_splits option.splits)

lemma array_elems_ref: "array_elems h v = Inr vs \<Longrightarrow> \<exists>a. v = Ref a"
  by (auto simp: array_elems_def split: val.splits)

lemma prepare_card_ref: "prepare_card af h c = (h', Inr v) \<Longrightarrow> \<exists>a. v = Ref a"
  unfolding prepare_card_def
  by (auto split: sum.splits prod.splits option.splits dest!: array_elems_ref get_prop_ref)

lemma serialize_data:
  assumes ser: "serialize (h @ [Object [(k1, v1), (k2, Num n), (k3, Ref a), (k4, Str u)]]) []
                  (Ref (length h)) = Inr body"
    and v1: "v1 = Null \<or> (\<exists>m. v1 = Num m)"
  shows "\<exists>j1 j3. body = Some (JObj [(k1, j1), (k2, JNum n), (k3, j3), (k4, JStr u)])"
proof -
  let ?h = "h @ [Object [(k1, v1), (k2, Num n), (k3, Ref a), (k4, Str u)]]"
  obtain j1 where j1: "serialize ?h [length h] v1 = Inr (Some j1)"
    using v1 by auto
  have unfolded: "serialize ?h [] (Ref (length h)) =
      (case serialize ?h [length h] (Ref a) of
         Inl e \<Rightarrow> Inl e
       | Inr x \<Rightarrow> Inr (Some (JObj (members [k1, k2, k3, k4] [Some j1, Some (JNum n), x, Some (JStr u)]))))"
    by (simp add: serialize_object j1 split: sum.splits)
  from ser unfolded obtain x where x: "serialize ?h [length h] (Ref a) = Inr x"
    and body: "body = Some (JObj (members [k1, k2, k3, k4] [Some j1, Some (JNum n), x, Some (JStr u)]))"
    by (auto split: sum.splits)
  from serialize_ref_some [OF x] obtain j3 where "x = Some j3"
    by auto
  with body show ?thesis
    by simp
qed

section \<open>The example page, evaluated\<close>

lemma example_click_effects:
  "effects (fst (saveBtn_click example_consts example_env example_page)) =
[Post example_request]"
  by code_simp

section \<open>The save flow\<close>

text \<open>
  C2. Every save request carries a JSON object with the keys \<open>pk\<close> and \<open>set\<close> and
  exactly one pair of face keys: \<open>back\<close> and \<open>back_image\<close> when \<open>EDITING_BACK\<close> is
  true, \<open>front\<close> and \<open>front_image\<close> when it is false, and no key of the other pair.
\<close>

theorem save_body_keys:
  assumes "effects (fst (saveBtn_click c env s)) = effects s @ [Post r]"
  shows "body_keys r =
    (if EDITING_BACK c then [''pk'', ''set'', ''back'', ''back_image'']
     else [''pk'', ''set'', ''front'', ''front_image''])"
  using assms
  unfolding saveBtn_click_def body_keys_def request_data_def Let_def
  by (auto split: if_splits prod.splits sum.splits option.splits
      dest!: prepare_card_ref serialize_data)

theorem save_body_keys_witness:
  "effects (fst (saveBtn_click example_consts example_env example_page))
     = effects example_page @ [Post example_request]
   \<and> body_keys example_request = [''pk'', ''set'', ''front'', ''front_image'']"
proof -
  have sent: "effects (fst (saveBtn_click example_consts example_env example_page))
      = effects example_page @ [Post example_request]"
    by (simp add: example_click_effects) (simp add: example_page_def)
  show ?thesis
    using sent save_body_keys [OF sent] by (simp add: example_consts_def)
qed

text \<open>
  C3. When the card name is falsy or is the default name \<open>unnamed\<close>, the click handler
  only shows the validation notice: it returns normally, the page is otherwise
  unchanged, so no request is sent and the button keeps its state and label.
\<close>

theorem save_without_name:
  assumes "\<not> truthy (getCardName env) \<or> getCardName env = Str ''unnamed''"
  shows "saveBtn_click c env s =
     (s\<lparr>effects := effects s @ [Notify ''You must give your card a name to save it!'' 5]\<rparr>, None)
     \<and> saveBtn (fst (saveBtn_click c env s)) = saveBtn s
     \<and> (\<forall>r. Post r \<notin> set (drop (length (effects s)) (effects (fst (saveBtn_click c env s)))))"
  using assms by (auto simp: saveBtn_click_def Let_def)

theorem save_without_name_witness:
  "saveBtn_click example_consts (example_env\<lparr>getCardName := Str ''unnamed''\<rparr>) example_page =
     (example_page\<lparr>effects := [Notify ''You must give your card a name to save it!'' 5]\<rparr>, None)
   \<and> saveBtn_click example_consts (example_env\<lparr>getCardName := Str []\<rparr>) example_page =
     (example_page\<lparr>effects := [Notify ''You must give your card a name to save it!'' 5]\<rparr>, None)"
proof -
  have a: "\<not> truthy (getCardName (example_env\<lparr>getCardName := Str ''unnamed''\<rparr>))
      \<or> getCardName (example_env\<lparr>getCardName := Str ''unnamed''\<rparr>) = Str ''unnamed''"
    by simp
  have b: "\<not> truthy (getCardName (example_env\<lparr>getCardName := Str []\<rparr>))
      \<or> getCardName (example_env\<lparr>getCardName := Str []\<rparr>) = Str ''unnamed''"
    by simp
  show ?thesis
    using save_without_name [OF a, of example_consts example_page]
      save_without_name [OF b, of example_consts example_page]
    by (simp add: example_page_def)
qed

text \<open>
  C4. After a click that sent the save request: on success with a reply whose
  \<open>view_url\<close> is the string \<open>u\<close>, the button is relabelled and the page navigates to
  exactly \<open>u\<close>; on failure the button is enabled with the label \<open>Save Card\<close> (its state
  before the click, when that was the stock enabled button), the error notice is shown,
  and nothing else happens: no second request and no navigation.
\<close>

theorem save_completion:
  assumes "saveBtn_click c env s0 = (s1, out)"
    and "effects s1 = effects s0 @ [Post r]"
  shows "(get_prop (store s1) data ''view_url'' = Inr (Str u) \<longrightarrow>
            save_done data s1 =
              (s1\<lparr>saveBtn := \<lparr>disabled = True, label = ''Saved!''\<rparr>,
                  effects := effects s0 @ [Post r, Navigate u]\<rparr>, None))
       \<and> save_fail s1 =
            s1\<lparr>saveBtn := \<lparr>disabled = False, label = ''Save Card''\<rparr>,
               effects := effects s0 @ [Post r, Notify ''There was an error saving your card.'' 5]\<rparr>
       \<and> (saveBtn s0 = \<lparr>disabled = False, label = ''Save Card''\<rparr> \<longrightarrow>
            saveBtn (save_fail s1) = saveBtn s0)"
proof -
  have "saveBtn s1 = \<lparr>disabled = True, label = ''Saving...''\<rparr>"
    using assms unfolding saveBtn_click_def Let_def
    by (auto split: if_splits prod.splits sum.splits)
  then show ?thesis
    using assms(2) by (simp add: save_done_def save_fail_def Let_def)
qed


theorem save_completion_witness:
  "effects (fst (saveBtn_click example_consts example_env example_page))
     = effects example_page @ [Post example_request]
   \<and> effects (fst (save_done (Ref 13) (fst (saveBtn_click example_consts example_env example_page))))
     = [Post example_request, Navigate ''/cards/7/'']
   \<and> saveBtn (save_fail (fst (saveBtn_click example_consts example_env example_page)))
     = saveBtn example_page"
proof -
  let ?s1 = "fst (saveBtn_click example_consts example_env example_page)"
  have click: "saveBtn_click example_consts example_env example_page
      = (?s1, snd (saveBtn_click example_consts example_env example_page))"
    by simp
  have sent: "effects ?s1 = effects example_page @ [Post example_request]"
    by (simp add: example_click_effects) (simp add: example_page_def)
  have reply: "get_prop (store ?s1) (Ref 13) ''view_url'' = Inr (Str ''/cards/7/'')"
    by code_simp
  have stock: "saveBtn example_page = \<lparr>disabled = False, label = ''Save Card''\<rparr>"
    by (simp add: example_page_def)
  show ?thesis
    using sent reply stock save_completion [OF click sent, of "Ref 13" "''/cards/7/''"]
    by (simp add: example_page_def)
qed

section \<open>Back face removal\<close>

lemma serialize_empty_object:
  "serialize (h @ [Object []]) [] (Ref (length h)) = Inr (Some (JObj []))"
  by (simp add: serialize_object)

text \<open>
  C8. A confirmed click on the remove-back-face button sends exactly one POST to the
  endpoint, with the empty JSON object as body and the CSRF header, and the success
  callback reloads the page; a declined click sends nothing and leaves the page as it is.
\<close>

theorem remove_back_face:
  "remove_back_click remove_url True token s =
     (s\<lparr>store := store s @ [Object []],
        effects := effects s @
          [Post \<lparr>req_url = remove_url, req_body = Some (JObj []),
                 req_contentType = ''application/json; charset=utf-8'', req_csrf = token\<rparr>]\<rparr>,
      None)
   \<and> remove_back_done s = s\<lparr>effects := effects s @ [Reload]\<rparr>
   \<and> remove_back_click remove_url False token s = (s, None)"
  by (simp add: remove_back_click_def remove_back_done_def serialize_empty_object Let_def)

section \<open>The rarity dropdown and the info field\<close>

text \<open>
  C7. The dropdown has exactly five options, with the values blank, \<open>C\<close>, \<open>U\<close>, \<open>R\<close>,
  \<open>M\<close> and the texts Select Rarity, Common, Uncommon, Rare, Mythic Rare. Selecting
  any of them writes its value, upper-cased, into the info rarity field (the empty
  string for the blank option) and calls the field's re-render hook. Editing the info
  field directly leaves the dropdown's selection alone and calls nothing.
\<close>

theorem rarity_dropdown:
  "map fst dropdown_options = ['''', ''C'', ''U'', ''R'', ''M'']
   \<and> map snd dropdown_options =
       [''Select Rarity'', ''Common'', ''Uncommon'', ''Rare'', ''Mythic Rare'']
   \<and> (\<forall>i < length dropdown_options.
         info_rarity (select_rarity i s) = map upper_char (fst (dropdown_options ! i))
         \<and> info_rarity (select_rarity i s) = fst (dropdown_options ! i)
         \<and> effects (select_rarity i s) = effects s @ [Call BottomInfoEdited, Call FetchSetSymbol])
   \<and> set_symbol_rarity (info_rarity_input txt s) = set_symbol_rarity s
   \<and> effects (info_rarity_input txt s) = effects s"
proof -
  have opts: "dropdown_options =
      [('''', ''Select Rarity''), (''C'', ''Common''), (''U'', ''Uncommon''),
       (''R'', ''Rare''), (''M'', ''Mythic Rare'')]"
    by (simp add: dropdown_options_def RARITIES_def)
  have each: "info_rarity (select_rarity i s) = map upper_char (fst (dropdown_options ! i))
      \<and> info_rarity (select_rarity i s) = fst (dropdown_options ! i)
      \<and> effects (select_rarity i s) = effects s @ [Call BottomInfoEdited, Call FetchSetSymbol]"
    if "i < length dropdown_options" for i
  proof -
    have "i = 0 \<or> i = 1 \<or> i = 2 \<or> i = 3 \<or> i = 4"
      using that by (auto simp: opts)
    then show ?thesis
      by (auto simp: select_rarity_def dropdown_input_def dropdown_change_def dropdown_val_def
          toUpperCase_def upper_char_def opts)
  qed
  have every: "\<forall>i < length dropdown_options.
      info_rarity (select_rarity i s) = map upper_char (fst (dropdown_options ! i))
      \<and> info_rarity (select_rarity i s) = fst (dropdown_options ! i)
      \<and> effects (select_rarity i s) = effects s @ [Call BottomInfoEdited, Call FetchSetSymbol]"
    using each by blast
  have vals: "map fst dropdown_options = ['''', ''C'', ''U'', ''R'', ''M'']"
    by (simp add: opts)
  have texts: "map snd dropdown_options =
      [''Select Rarity'', ''Common'', ''Uncommon'', ''Rare'', ''Mythic Rare'']"
    by (simp add: opts)
  have one_way: "set_symbol_rarity (info_rarity_input txt s) = set_symbol_rarity s
      \<and> effects (info_rarity_input txt s) = effects s"
    by (simp add: info_rarity_input_def)
  show ?thesis
    using vals texts every one_way by blast
qed

theorem rarity_dropdown_witness:
  "(2::nat) < length dropdown_options \<and> info_rarity (select_rarity 2 example_page) = ''U''
   \<and> effects (select_rarity 2 example_page) = [Call BottomInfoEdited, Call FetchSetSymbol]"
proof -
  have h: "(2::nat) < length dropdown_options"
    by (simp add: dropdown_options_def RARITIES_def)
  show ?thesis
    using h rarity_dropdown [of example_page "''x''", THEN conjunct2, THEN conjunct2,
        THEN conjunct1, rule_format, OF h]
    by (simp add: example_page_def dropdown_options_def RARITIES_def upper_char_def)
qed

section \<open>The lookup\<close>

lemma is_prefix_append: "is_prefix p (p @ t)"
  by (induction p) auto

lemma is_prefix_Nil: "is_prefix p [] \<Longrightarrow> p = []"
  by (cases p) auto

lemma includes_str_prefix: "is_prefix p t \<Longrightarrow> includes_str (a @ t) p"
proof (induction a)
  case Nil
  then show ?case
    by (cases t) (auto dest: is_prefix_Nil)
next
  case (Cons x a)
  then show ?case
    by simp
qed

lemma includes_str_middle: "includes_str (a @ b @ c) b"
  by (rule includes_str_prefix) (rule is_prefix_append)

lemma includes_str_end: "includes_str (a @ b) b"
  using includes_str_middle [of a b "[]"] by simp

lemma get_prop_throws_iff: "(\<exists>e. get_prop h v k = Inl e) \<longleftrightarrow> v = Undefined \<or> v = Null"
  by (cases v) (auto simp: get_prop_def split: option.splits obj.splits)

lemma get_prop_again:
  assumes "get_prop h v k = Inr x"
  shows "\<exists>y. get_prop h v k' = Inr y"
proof (cases "get_prop h v k'")
  case (Inl e)
  then have "v = Undefined \<or> v = Null"
    using get_prop_throws_iff [of h v k'] by blast
  then have "\<exists>e. get_prop h v k = Inl e"
    using get_prop_throws_iff [of h v k] by blast
  with assms show ?thesis
    by simp
next
  case (Inr y)
  then show ?thesis
    by blast
qed

lemma get_prop_truthy:
  assumes "truthy v"
  shows "\<exists>y. get_prop h v k = Inr y"
proof (cases "get_prop h v k")
  case (Inl e)
  then have "v = Undefined \<or> v = Null"
    using get_prop_throws_iff [of h v k] by blast
  with assms show ?thesis
    by auto
next
  case (Inr y)
  then show ?thesis
    by blast
qed

lemma marks_mana_cost_start:
  assumes "marks_mana_cost s"
  shows "\<exists>url. checkScryfall_start s = (s\<lparr>effects := effects s @ [Get url]\<rparr>, Awaiting)"
proof -
  from assms obtain d n where d: "selected_text s = Inr d"
    and n: "get_prop (store s) d ''name'' = Inr n"
    and inc: "includes_val (store s) n ''Mana Cost'' = Inr True"
    unfolding marks_mana_cost_def by (auto split: sum.splits)
  from get_prop_again [OF n] obtain t where "get_prop (store s) d ''text'' = Inr t"
    by blast
  with d n inc have "checkScryfall_start s =
      (s\<lparr>effects := effects s @ [Get (parse_mana_url @ to_string (store s) [] t)]\<rparr>, Awaiting)"
    by (simp add: checkScryfall_start_def)
  then show ?thesis
    by blast
qed

lemma not_marks_mana_cost_start:
  "\<not> marks_mana_cost s \<Longrightarrow>
   checkScryfall_start s = (s, NotManaCost) \<or> (\<exists>e. checkScryfall_start s = (s, Threw e))"
  unfolding marks_mana_cost_def checkScryfall_start_def
  by (auto split: sum.splits bool.splits)

lemma run_marked:
  assumes "marks_mana_cost s"
  shows "checkScryfall r between s = checkScryfall_resume r (at_reply between s)"
proof -
  from marks_mana_cost_start [OF assms] obtain url
    where "checkScryfall_start s = (s\<lparr>effects := effects s @ [Get url]\<rparr>, Awaiting)"
    by blast
  then show ?thesis
    by (simp add: checkScryfall_def at_reply_def)
qed

lemma run_unmarked:
  assumes "\<not> marks_mana_cost s"
  shows "fst (checkScryfall r between s) = s"
  using not_marks_mana_cost_start [OF assms] by (auto simp: checkScryfall_def)

lemma resume_resolved:
  assumes "get_prop (store p) res ''cost'' = Inr c" and "truthy c"
  shows "checkScryfall_resume (Resolved res) p =
     (p\<lparr>text_editor := to_string (store p) [] c, effects := effects p @ [Call TextEdited]\<rparr>, None)"
  using assms by (simp add: checkScryfall_resume_def)

lemma resume_unwritten:
  assumes "\<not> (\<exists>res c. r = Resolved res \<and> get_prop (store p) res ''cost'' = Inr c \<and> truthy c)"
  shows "text_editor (fst (checkScryfall_resume r p)) = text_editor p
     \<and> Call TextEdited \<notin> set (drop (length (effects p)) (effects (fst (checkScryfall_resume r p))))"
  using assms
  by (auto simp: checkScryfall_resume_def Let_def split: reply.splits sum.splits if_splits)

lemma resume_rejected:
  "\<exists>msg. checkScryfall_resume (Rejected (Ref a)) p =
       (p\<lparr>effects := effects p @ [ConsoleError msg]\<rparr>, None)
     \<and> (\<forall>st. get_prop (store p) (Ref a) ''status'' = Inr st \<longrightarrow>
           includes_str msg (to_string (store p) [] st))
     \<and> (\<forall>rj d. get_prop (store p) (Ref a) ''responseJSON'' = Inr rj \<and> truthy rj
           \<and> get_prop (store p) rj ''details'' = Inr d \<longrightarrow>
           includes_str msg (to_string (store p) [] d))"
proof -
  obtain st where st: "get_prop (store p) (Ref a) ''status'' = Inr st"
    using get_prop_truthy [of "Ref a"] by auto
  obtain rj where rj: "get_prop (store p) (Ref a) ''responseJSON'' = Inr rj"
    using get_prop_truthy [of "Ref a"] by auto
  let ?head = "scryfall_error @ to_string (store p) [] st"
  show ?thesis
  proof (cases "truthy rj")
    case True
    then obtain d where d: "get_prop (store p) rj ''details'' = Inr d"
      using get_prop_truthy by blast
    let ?msg = "?head @ '' - '' @ to_string (store p) [] d"
    have run: "checkScryfall_resume (Rejected (Ref a)) p =
        (p\<lparr>effects := effects p @ [ConsoleError ?msg]\<rparr>, None)"
      using st rj True d by (simp add: checkScryfall_resume_def)
    have "includes_str ?msg (to_string (store p) [] st)"
      using includes_str_middle [of scryfall_error "to_string (store p) [] st"] by simp
    moreover have "includes_str ?msg (to_string (store p) [] d)"
      using includes_str_end [of "?head @ '' - ''" "to_string (store p) [] d"] by simp
    ultimately show ?thesis
      using run st rj d by auto
  next
    case False
    have run: "checkScryfall_resume (Rejected (Ref a)) p =
        (p\<lparr>effects := effects p @ [ConsoleError ?head]\<rparr>, None)"
      using st rj False by (simp add: checkScryfall_resume_def)
    have "includes_str ?head (to_string (store p) [] st)"
      by (rule includes_str_end)
    then show ?thesis
      using run st rj False by auto
  qed
qed

text \<open>
  C6. Take one run of the lookup, with whatever other handlers do to the page while
  the request is in flight. If the name of the text box that is selected when the
  lookup fires marks it as the mana cost box, the request is sent; if then the request
  succeeds and the reply has a truthy \<open>cost\<close>, the text of that cost is written into
  the field and the re-render hook is called, on the page as it is when the reply
  arrives and whatever is selected by then. In every other case the field is not
  written and the hook is not called: if the name does not mark the mana cost box, the
  run leaves the page as it was, and otherwise the field is as it was when the reply
  arrived. When the request fails (with its request object), just one diagnostic is
  logged, which contains the status and, when the error body is present, its
  \<open>details\<close>.
\<close>

theorem lookup_outcome:
  "(marks_mana_cost s \<longrightarrow>
      (\<exists>url. checkScryfall_start s = (s\<lparr>effects := effects s @ [Get url]\<rparr>, Awaiting)))
   \<and> (marks_mana_cost s \<and> r = Resolved res
        \<and> get_prop (store (at_reply between s)) res ''cost'' = Inr c \<and> truthy c \<longrightarrow>
        checkScryfall r between s =
          ((at_reply between s)
             \<lparr>text_editor := to_string (store (at_reply between s)) [] c,
              effects := effects (at_reply between s) @ [Call TextEdited]\<rparr>,
           None))
   \<and> (\<not> marks_mana_cost s \<longrightarrow> fst (checkScryfall r between s) = s)
   \<and> (marks_mana_cost s
        \<and> \<not> (\<exists>res c. r = Resolved res
                \<and> get_prop (store (at_reply between s)) res ''cost'' = Inr c \<and> truthy c) \<longrightarrow>
        text_editor (fst (checkScryfall r between s)) = text_editor (at_reply between s)
        \<and> Call TextEdited \<notin> set (drop (length (effects (at_reply between s)))
                                  (effects (fst (checkScryfall r between s)))))
   \<and> (marks_mana_cost s \<and> r = Rejected (Ref a) \<longrightarrow>
        (\<exists>msg.
           checkScryfall r between s =
             ((at_reply between s)
                \<lparr>effects := effects (at_reply between s) @ [ConsoleError msg]\<rparr>,
              None)
           \<and> (\<forall>st. get_prop (store (at_reply between s)) (Ref a) ''status'' = Inr st \<longrightarrow>
                 includes_str msg (to_string (store (at_reply between s)) [] st))
           \<and> (\<forall>rj d. get_prop (store (at_reply between s)) (Ref a) ''responseJSON'' = Inr rj
                 \<and> truthy rj \<and> get_prop (store (at_reply between s)) rj ''details'' = Inr d \<longrightarrow>
                 includes_str msg (to_string (store (at_reply between s)) [] d))))"
proof (intro conjI impI)
  assume "marks_mana_cost s"
  then show "\<exists>url. checkScryfall_start s = (s\<lparr>effects := effects s @ [Get url]\<rparr>, Awaiting)"
    by (rule marks_mana_cost_start)
next
  assume ok: "marks_mana_cost s \<and> r = Resolved res
      \<and> get_prop (store (at_reply between s)) res ''cost'' = Inr c \<and> truthy c"
  then have "checkScryfall r between s = checkScryfall_resume (Resolved res) (at_reply between s)"
    using run_marked [of s r between] by simp
  with ok show "checkScryfall r between s =
      ((at_reply between s)
         \<lparr>text_editor := to_string (store (at_reply between s)) [] c,
          effects := effects (at_reply between s) @ [Call TextEdited]\<rparr>,
       None)"
    by (simp add: resume_resolved)
next
  assume "\<not> marks_mana_cost s"
  then show "fst (checkScryfall r between s) = s"
    by (rule run_unmarked)
next
  assume no: "marks_mana_cost s
      \<and> \<not> (\<exists>res c. r = Resolved res
              \<and> get_prop (store (at_reply between s)) res ''cost'' = Inr c \<and> truthy c)"
  then have run: "checkScryfall r between s = checkScryfall_resume r (at_reply between s)"
    using run_marked [of s r between] by simp
  from no have "\<not> (\<exists>res c. r = Resolved res
      \<and> get_prop (store (at_reply between s)) res ''cost'' = Inr c \<and> truthy c)"
    by simp
  note quiet = resume_unwritten [OF this]
  from quiet run show "text_editor (fst (checkScryfall r between s)) = text_editor (at_reply between s)"
    by simp
  from quiet run show "Call TextEdited \<notin> set (drop (length (effects (at_reply between s)))
      (effects (fst (checkScryfall r between s))))"
    by simp
next
  assume rejected: "marks_mana_cost s \<and> r = Rejected (Ref a)"
  then have "checkScryfall r between s = checkScryfall_resume (Rejected (Ref a)) (at_reply between s)"
    using run_marked [of s r between] by simp
  with resume_rejected [of a "at_reply between s"]
  show "\<exists>msg.
      checkScryfall r between s =
        ((at_reply between s)\<lparr>effects := effects (at_reply between s) @ [ConsoleError msg]\<rparr>,
         None)
      \<and> (\<forall>st. get_prop (store (at_reply between s)) (Ref a) ''status'' = Inr st \<longrightarrow>
            includes_str msg (to_string (store (at_reply between s)) [] st))
      \<and> (\<forall>rj d. get_prop (store (at_reply between s)) (Ref a) ''responseJSON'' = Inr rj
            \<and> truthy rj \<and> get_prop (store (at_reply between s)) rj ''details'' = Inr d \<longrightarrow>
            includes_str msg (to_string (store (at_reply between s)) [] d))"
    by simp
qed

theorem lookup_outcome_witness:
  "marks_mana_cost example_page
   \<and> \<not> marks_mana_cost (at_reply select_title example_page)
   \<and> text_editor (fst (checkScryfall (Resolved (Ref 10)) select_title example_page)) = ''{2}{W}''
   \<and> text_editor (fst (checkScryfall (Rejected (Ref 11)) select_title example_page)) = ''2W''
   \<and> snd (checkScryfall (Rejected (Ref 11)) select_title example_page) = None
   \<and> (\<exists>msg. effects (fst (checkScryfall (Rejected (Ref 11)) select_title example_page)) =
          [Get ''https://api.scryfall.com/symbology/parse-mana?cost=2W'', ConsoleError msg]
        \<and> includes_str msg ''404'' \<and> includes_str msg ''bad cost'')
   \<and> fst (checkScryfall (Resolved (Ref 10)) select_title (select_title example_page))
       = select_title example_page"
proof -
  let ?p = "at_reply select_title example_page"
  have m: "marks_mana_cost example_page"
    by code_simp
  have left: "\<not> marks_mana_cost ?p"
    by code_simp
  have other: "\<not> marks_mana_cost (select_title example_page)"
    by code_simp
  have c: "get_prop (store ?p) (Ref 10) ''cost'' = Inr (Str ''{2}{W}'')"
    by code_simp
  have t: "truthy (Str ''{2}{W}'')"
    by simp
  have field: "text_editor ?p = ''2W''"
    by code_simp
  have sent: "effects ?p = [Get ''https://api.scryfall.com/symbology/parse-mana?cost=2W'']"
    by code_simp
  have status: "get_prop (store ?p) (Ref 11) ''status'' = Inr (Num 404)"
    by code_simp
  have status_text: "to_string (store ?p) [] (Num 404) = ''404''"
    by code_simp
  have body: "get_prop (store ?p) (Ref 11) ''responseJSON'' = Inr (Ref 12)"
    by code_simp
  have details: "get_prop (store ?p) (Ref 12) ''details'' = Inr (Str ''bad cost'')"
    by code_simp
  have details_text: "to_string (store ?p) [] (Str ''bad cost'') = ''bad cost''"
    by code_simp
  note rule = lookup_outcome [of _ _ "Ref 10" select_title "Str ''{2}{W}''" 11]
  have written: "checkScryfall (Resolved (Ref 10)) select_title example_page =
      (?p\<lparr>text_editor := to_string (store ?p) [] (Str ''{2}{W}''),
          effects := effects ?p @ [Call TextEdited]\<rparr>, None)"
    using rule [of example_page "Resolved (Ref 10)"] m c t by blast
  have untouched: "text_editor (fst (checkScryfall (Rejected (Ref 11)) select_title example_page))
      = text_editor ?p"
    using rule [of example_page "Rejected (Ref 11)"] m by simp
  from rule [of example_page "Rejected (Ref 11)"] m
  obtain msg where logged: "checkScryfall (Rejected (Ref 11)) select_title example_page =
        (?p\<lparr>effects := effects ?p @ [ConsoleError msg]\<rparr>, None)"
    and with_status: "\<forall>st. get_prop (store ?p) (Ref 11) ''status'' = Inr st \<longrightarrow>
        includes_str msg (to_string (store ?p) [] st)"
    and with_details: "\<forall>rj d. get_prop (store ?p) (Ref 11) ''responseJSON'' = Inr rj
        \<and> truthy rj \<and> get_prop (store ?p) rj ''details'' = Inr d \<longrightarrow>
        includes_str msg (to_string (store ?p) [] d)"
    by blast
  from with_status status status_text have has_status: "includes_str msg ''404''"
    by fastforce
  have "truthy (Ref 12)"
    by simp
  with with_details body details have "includes_str msg (to_string (store ?p) [] (Str ''bad cost''))"
    by blast
  with details_text have has_details: "includes_str msg ''bad cost''"
    by simp
  have diagnostic: "\<exists>msg. effects (fst (checkScryfall (Rejected (Ref 11)) select_title example_page)) =
        [Get ''https://api.scryfall.com/symbology/parse-mana?cost=2W'', ConsoleError msg]
      \<and> includes_str msg ''404'' \<and> includes_str msg ''bad cost''"
    using logged sent has_status has_details by auto
  have skipped: "fst (checkScryfall (Resolved (Ref 10)) select_title (select_title example_page))
      = select_title example_page"
    using rule [of "select_title example_page" "Resolved (Ref 10)"] other by blast
  show ?thesis
    using m left written untouched logged field diagnostic skipped by auto
qed

section \<open>The lookup without a descriptor\<close>

lemma last_show_nat: "last (show_nat n) = digit_char (n mod 10)"
  by (subst show_nat.simps) simp

lemma digit_char_not_letter:
  assumes "d < 10"
  shows "digit_char d \<noteq> CHR ''d''" "digit_char d \<noteq> CHR ''e''" "digit_char d \<noteq> CHR ''h''"
  using assms by (simp_all add: digit_char_def char_of_eq_iff take_bit_eq_mod)

lemma show_nat_not_name:
  "show_nat n \<noteq> ''undefined''" "show_nat n \<noteq> ''name''" "show_nat n \<noteq> ''length''"
proof -
  have d: "n mod 10 < 10"
    by simp
  show "show_nat n \<noteq> ''undefined''"
    using last_show_nat [of n] digit_char_not_letter(1) [OF d] by auto
  show "show_nat n \<noteq> ''name''"
    using last_show_nat [of n] digit_char_not_letter(2) [OF d] by auto
  show "show_nat n \<noteq> ''length''"
    using last_show_nat [of n] digit_char_not_letter(3) [OF d] by auto
qed

lemma index_of_key_name:
  "index_of_key n ''undefined'' = None" "index_of_key n ''name'' = None"
proof -
  have "filter (\<lambda>i. show_nat i = ''undefined'') [0..<n] = []"
    by (simp add: filter_empty_conv show_nat_not_name)
  then show "index_of_key n ''undefined'' = None"
    by (simp add: index_of_key_def)
  have "filter (\<lambda>i. show_nat i = ''name'') [0..<n] = []"
    using show_nat_not_name(2) by (auto simp: filter_empty_conv)
  then show "index_of_key n ''name'' = None"
    by (simp add: index_of_key_def)
qed

lemma map_of_absent: "k \<notin> fst ` set ps \<Longrightarrow> map_of ps k = None"
  by (simp add: map_of_eq_None_iff)

lemma get_without_field:
  assumes "\<not> has_field h d k" and "k = ''name'' \<or> k = ''undefined''"
  shows "get_prop h d k = Inl TypeError \<or> get_prop h d k = Inr Undefined"
proof (cases d)
  case (Ref a)
  show ?thesis
  proof (cases "length h \<le> a")
    case True
    with Ref show ?thesis
      by (simp add: get_prop_def)
  next
    case False
    with Ref assms show ?thesis
      by (cases "h ! a")
        (auto simp: get_prop_def has_field_def index_of_key_name map_of_absent)
  qed
qed (use assms(2) in \<open>auto simp: get_prop_def index_of_key_name\<close>)

lemma start_throws_on_undefined:
  assumes "selected_text s = Inr d"
    and "get_prop (store s) d ''name'' = Inl TypeError \<or> get_prop (store s) d ''name'' = Inr Undefined"
  shows "\<exists>e. checkScryfall_start s = (s, Threw e)"
  using assms by (auto simp: checkScryfall_start_def includes_val_def)

lemma selected_text_by_keys:
  assumes "text_keys s = Some (t, ks)"
  shows "selected_text s = get_prop (store s) t (selected_key ks (selectedTextIndex s))"
  using assms by (auto simp: text_keys_def selected_text_def split: sum.splits)

lemma selected_text_without_keys:
  assumes "text_keys s = None"
  shows "\<exists>e. selected_text s = Inl e"
  using assms by (auto simp: text_keys_def selected_text_def split: sum.splits)

lemma selected_text_in_range:
  assumes "text_keys s = Some (t, ks)" and "index_valid s"
  shows "selected_text s = get_prop (store s) t (ks ! nat (selectedTextIndex s))"
proof -
  from assms have "selected_key ks (selectedTextIndex s) = ks ! nat (selectedTextIndex s)"
    by (simp add: index_valid_def selected_key_def)
  with selected_text_by_keys [OF assms(1)] show ?thesis
    by simp
qed

lemma selected_text_out_of_range:
  assumes "text_keys s = Some (t, ks)" and "\<not> index_valid s"
  shows "selected_text s = get_prop (store s) t ''undefined''"
proof -
  from assms have "selected_key ks (selectedTextIndex s) = ''undefined''"
    by (auto simp: index_valid_def selected_key_def)
  with selected_text_by_keys [OF assms(1)] show ?thesis
    by simp
qed

lemma descriptor_in_range:
  assumes "index_valid s"
  shows "descriptor_has_name s = entry_has_name s"
proof -
  from assms obtain t ks where keys: "text_keys s = Some (t, ks)"
    by (auto simp: index_valid_def split: option.splits)
  from selected_text_in_range [OF keys assms] keys show ?thesis
    by (simp add: descriptor_has_name_def entry_has_name_def)
qed

lemma descriptor_out_of_range:
  assumes "\<not> index_valid s" and "\<not> undefined_entry s"
  shows "\<not> descriptor_has_name s"
proof (cases "text_keys s")
  case None
  from selected_text_without_keys [OF None] obtain e where "selected_text s = Inl e"
    by blast
  then show ?thesis
    by (simp add: descriptor_has_name_def)
next
  case (Some p)
  obtain t ks where p: "p = (t, ks)"
    by (cases p)
  from assms(2) Some p have "\<not> has_field (store s) t ''undefined''"
    by (simp add: undefined_entry_def)
  from get_without_field [OF this]
  have "get_prop (store s) t ''undefined'' = Inl TypeError
      \<or> get_prop (store s) t ''undefined'' = Inr Undefined"
    by simp
  with selected_text_out_of_range [OF Some [unfolded p] assms(1)]
  show ?thesis
    by (auto simp: descriptor_has_name_def has_field_def)
qed

text \<open>
  C10. The lookup dereferences the selected descriptor without a guard: whenever the
  descriptor it reads has no \<open>name\<close> field, it throws, and it does so before any
  request is made: the page is as before. The descriptor it reads is the entry at
  \<open>selectedTextIndex\<close> when that is a valid index into the text entries, so that
  there it has a \<open>name\<close> field exactly when that entry has one. When the index is out
  of range, the descriptor it reads is what the text mapping holds under the key
  \<open>undefined\<close>; if the mapping has no entry under that key, the descriptor has no
  \<open>name\<close> field, and the lookup throws.
\<close>

theorem lookup_throws_without_descriptor:
  "(\<not> descriptor_has_name s \<longrightarrow> (\<exists>e. checkScryfall_start s = (s, Threw e)))
   \<and> (\<forall>t ks. text_keys s = Some (t, ks) \<and> index_valid s \<longrightarrow>
         selected_text s = get_prop (store s) t (ks ! nat (selectedTextIndex s)))
   \<and> (index_valid s \<longrightarrow> descriptor_has_name s = entry_has_name s)
   \<and> (\<forall>t ks. text_keys s = Some (t, ks) \<and> \<not> index_valid s \<longrightarrow>
         selected_text s = get_prop (store s) t ''undefined'')
   \<and> (\<not> index_valid s \<and> \<not> undefined_entry s \<longrightarrow>
         \<not> descriptor_has_name s \<and> (\<exists>e. checkScryfall_start s = (s, Threw e)))"
proof -
  have throws: "\<exists>e. checkScryfall_start s = (s, Threw e)" if bare: "\<not> descriptor_has_name s"
  proof (cases "selected_text s")
    case (Inl e)
    then show ?thesis
      by (simp add: checkScryfall_start_def)
  next
    case (Inr d)
    with bare have "\<not> has_field (store s) d ''name''"
      by (simp add: descriptor_has_name_def)
    from get_without_field [OF this]
    have "get_prop (store s) d ''name'' = Inl TypeError \<or> get_prop (store s) d ''name'' = Inr Undefined"
      by simp
    from start_throws_on_undefined [OF Inr this] show ?thesis .
  qed
  have inside: "\<forall>t ks. text_keys s = Some (t, ks) \<and> index_valid s \<longrightarrow>
      selected_text s = get_prop (store s) t (ks ! nat (selectedTextIndex s))"
    using selected_text_in_range by blast
  have same: "index_valid s \<longrightarrow> descriptor_has_name s = entry_has_name s"
    using descriptor_in_range by blast
  have outside: "\<forall>t ks. text_keys s = Some (t, ks) \<and> \<not> index_valid s \<longrightarrow>
      selected_text s = get_prop (store s) t ''undefined''"
    using selected_text_out_of_range by blast
  have absent: "\<not> index_valid s \<and> \<not> undefined_entry s \<longrightarrow>
      \<not> descriptor_has_name s \<and> (\<exists>e. checkScryfall_start s = (s, Threw e))"
    using descriptor_out_of_range throws by blast
  show ?thesis
    using throws inside same outside absent by blast
qed

theorem lookup_throws_without_descriptor_witness:
  "\<not> index_valid (example_page\<lparr>selectedTextIndex := 2\<rparr>)
   \<and> \<not> undefined_entry (example_page\<lparr>selectedTextIndex := 2\<rparr>)
   \<and> selected_text (example_page\<lparr>selectedTextIndex := 2\<rparr>) = Inr Undefined
   \<and> \<not> descriptor_has_name (example_page\<lparr>selectedTextIndex := 2\<rparr>)
   \<and> fst (checkScryfall_start (example_page\<lparr>selectedTextIndex := 2\<rparr>))
       = example_page\<lparr>selectedTextIndex := 2\<rparr>
   \<and> snd (checkScryfall_start (example_page\<lparr>selectedTextIndex := 2\<rparr>)) \<noteq> Awaiting
   \<and> snd (checkScryfall_start (example_page\<lparr>selectedTextIndex := 2\<rparr>)) \<noteq> NotManaCost
   \<and> index_valid undefined_key_entry_page
   \<and> selected_text undefined_key_entry_page = Inr (Num 0)
   \<and> \<not> entry_has_name undefined_key_entry_page
   \<and> fst (checkScryfall_start undefined_key_entry_page) = undefined_key_entry_page
   \<and> snd (checkScryfall_start undefined_key_entry_page) \<noteq> Awaiting"
proof -
  let ?s = "example_page\<lparr>selectedTextIndex := 2\<rparr>"
  let ?u = "undefined_key_entry_page"
  have a: "\<not> index_valid ?s"
    by code_simp
  have b: "\<not> undefined_entry ?s"
    by code_simp
  have keys: "text_keys ?s = Some (Ref 1, [''mana'', ''title''])"
    by code_simp
  have held: "get_prop (store ?s) (Ref 1) ''undefined'' = Inr Undefined"
    by code_simp
  note out = lookup_throws_without_descriptor [of ?s]
  from a keys out have "selected_text ?s = get_prop (store ?s) (Ref 1) ''undefined''"
    by blast
  with held have read: "selected_text ?s = Inr Undefined"
    by simp
  from a b out have bare: "\<not> descriptor_has_name ?s"
    by blast
  from a b out obtain e where thrown: "checkScryfall_start ?s = (?s, Threw e)"
    by blast
  have c: "index_valid ?u"
    by code_simp
  have d: "\<not> entry_has_name ?u"
    by code_simp
  have keys': "text_keys ?u = Some (Ref 1, [''mana''])"
    by code_simp
  have held': "get_prop (store ?u) (Ref 1) ([''mana''] ! nat (selectedTextIndex ?u)) = Inr (Num 0)"
    by code_simp
  note into = lookup_throws_without_descriptor [of ?u]
  from c keys' into
  have "selected_text ?u = get_prop (store ?u) (Ref 1) ([''mana''] ! nat (selectedTextIndex ?u))"
    by blast
  with held' have read': "selected_text ?u = Inr (Num 0)"
    by simp
  from c d into have "\<not> descriptor_has_name ?u"
    by blast
  with into obtain e' where thrown': "checkScryfall_start ?u = (?u, Threw e')"
    by blast
  show ?thesis
    using a b read bare thrown c read' d thrown' by simp
qed

text \<open>
  On the card whose text box is stored under the key \<open>undefined\<close>, the index 1 is out
  of range, and yet the lookup finds a descriptor, does not throw and sends its request.
\<close>

theorem lookup_beyond_range_counterexample:
  "\<not> index_valid undefined_key_page
   \<and> checkScryfall_start undefined_key_page =
       (undefined_key_page
          \<lparr>effects := [Get ''https://api.scryfall.com/symbology/parse-mana?cost=W'']\<rparr>,
        Awaiting)"
  by code_simp

section \<open>The save flow leaves the old objects alone\<close>

lemma agree_below_refl: "agree_below n h h"
  by (simp add: agree_below_def)

lemma agree_below_trans: "agree_below n h h1 \<Longrightarrow> agree_below n h1 h2 \<Longrightarrow> agree_below n h h2"
  by (auto simp: agree_below_def)

lemma agree_below_append: "n \<le> length h \<Longrightarrow> agree_below n h (h @ ext)"
  by (auto simp: agree_below_def nth_append)

lemma closed_above_append:
  "closed_above n h \<Longrightarrow> obj_fresh n ob \<Longrightarrow> closed_above n (h @ [ob])"
  by (auto simp: closed_above_def nth_append less_Suc_eq)

lemma revive_fresh:
  "n \<le> length h \<Longrightarrow> closed_above n h \<Longrightarrow>
     (case revive j h of (v, h') \<Rightarrow> agree_below n h h' \<and> closed_above n h' \<and> val_fresh n v)"
  "n \<le> length h \<Longrightarrow> closed_above n h \<Longrightarrow>
     (case revive_list js h of
        (vs, h') \<Rightarrow> agree_below n h h' \<and> closed_above n h' \<and> list_all (val_fresh n) vs)"
  "n \<le> length h \<Longrightarrow> closed_above n h \<Longrightarrow>
     (case revive_props ps h of
        (qs, h') \<Rightarrow> agree_below n h h' \<and> closed_above n h'
          \<and> list_all (\<lambda>p. val_fresh n (snd p)) qs)"
proof (induction j h and js h and ps h rule: revive_revive_list_revive_props.induct)
  case (5 js h)
  obtain vs h' where r: "revive_list js h = (vs, h')"
    by (cases "revive_list js h")
  with 5 have ih: "agree_below n h h'" "closed_above n h'" "list_all (val_fresh n) vs"
    by auto
  have len: "n \<le> length h'"
    using ih(1) 5(2) by (simp add: agree_below_def)
  have "agree_below n h (h' @ [Array vs])"
    using ih(1) agree_below_append [OF len] by (rule agree_below_trans)
  moreover have "closed_above n (h' @ [Array vs])"
    using ih(2,3) by (intro closed_above_append) (simp_all add: obj_fresh_def)
  ultimately show ?case
    using r len by (simp add: val_fresh_def)
next
  case (6 ps h)
  obtain qs h' where r: "revive_props ps h = (qs, h')"
    by (cases "revive_props ps h")
  with 6 have ih: "agree_below n h h'" "closed_above n h'"
      "list_all (\<lambda>p. val_fresh n (snd p)) qs"
    by auto
  have len: "n \<le> length h'"
    using ih(1) 6(2) by (simp add: agree_below_def)
  have "agree_below n h (h' @ [Object qs])"
    using ih(1) agree_below_append [OF len] by (rule agree_below_trans)
  moreover have "closed_above n (h' @ [Object qs])"
    using ih(2,3) by (intro closed_above_append) (simp_all add: obj_fresh_def)
  ultimately show ?case
    using r len by (simp add: val_fresh_def)
next
  case (8 j js h)
  obtain v h1 where r1: "revive j h = (v, h1)"
    by (cases "revive j h")
  with 8 have ih1: "agree_below n h h1" "closed_above n h1" "val_fresh n v"
    by auto
  have len1: "n \<le> length h1"
    using ih1(1) 8(3) by (simp add: agree_below_def)
  obtain vs h2 where r2: "revive_list js h1 = (vs, h2)"
    by (cases "revive_list js h1")
  with 8(2) [OF r1 [symmetric] len1 ih1(2)] have ih2: "agree_below n h1 h2" "closed_above n h2"
      "list_all (val_fresh n) vs"
    by auto
  show ?case
    using r1 r2 ih1 ih2 agree_below_trans [OF ih1(1) ih2(1)] by simp
next
  case (10 k j ps h)
  obtain v h1 where r1: "revive j h = (v, h1)"
    by (cases "revive j h")
  with 10 have ih1: "agree_below n h h1" "closed_above n h1" "val_fresh n v"
    by auto
  have len1: "n \<le> length h1"
    using ih1(1) 10(3) by (simp add: agree_below_def)
  obtain qs h2 where r2: "revive_props ps h1 = (qs, h2)"
    by (cases "revive_props ps h1")
  with 10(2) [OF r1 [symmetric] len1 ih1(2)] have ih2: "agree_below n h1 h2" "closed_above n h2"
      "list_all (\<lambda>p. val_fresh n (snd p)) qs"
    by auto
  show ?case
    using r1 r2 ih1 ih2 agree_below_trans [OF ih1(1) ih2(1)] by simp
qed (simp_all add: agree_below_refl val_fresh_def)


lemma index_of_key_less:
  assumes "index_of_key n k = Some i"
  shows "i < n"
proof -
  from assms obtain xs where "filter (\<lambda>i. show_nat i = k) [0..<n] = i # xs"
    by (auto simp: index_of_key_def split: list.splits)
  then have "i \<in> set (filter (\<lambda>i. show_nat i = k) [0..<n])"
    by (metis list.set_intros(1))
  then show ?thesis
    by simp
qed

lemma get_prop_fresh:
  assumes "closed_above n h" and "val_fresh n v" and "get_prop h v k = Inr x"
  shows "val_fresh n x"
proof (cases v)
  case (Ref a)
  show ?thesis
  proof (cases "length h \<le> a")
    case True
    with Ref assms(3) show ?thesis
      by (simp add: get_prop_def val_fresh_def)
  next
    case False
    with Ref assms(1,2) have fresh: "obj_fresh n (h ! a)"
      by (simp add: closed_above_def val_fresh_def)
    show ?thesis
    proof (cases "h ! a")
      case (Object ps)
      with Ref False assms(3) have "map_of ps k = Some x \<or> x = Undefined"
        by (auto simp: get_prop_def split: option.splits)
      then show ?thesis
      proof
        assume "map_of ps k = Some x"
        then have "(k, x) \<in> set ps"
          by (rule map_of_SomeD)
        with fresh Object show ?thesis
          by (auto simp: obj_fresh_def list_all_iff)
      qed (simp add: val_fresh_def)
    next
      case (Array vs)
      with Ref False assms(3) fresh show ?thesis
        by (auto simp: get_prop_def obj_fresh_def list_all_iff val_fresh_def
            split: if_splits option.splits dest!: index_of_key_less)
    next
      case (Host c qs)
      with Ref False assms(3) have "map_of qs k = Some x \<or> x = Undefined"
        by (auto simp: get_prop_def split: option.splits)
      then show ?thesis
      proof
        assume "map_of qs k = Some x"
        then have "(k, x) \<in> set qs"
          by (rule map_of_SomeD)
        with fresh Host show ?thesis
          by (auto simp: obj_fresh_def list_all_iff)
      qed (simp add: val_fresh_def)
    qed
  qed
qed (use assms(3) in \<open>auto simp: get_prop_def val_fresh_def split: if_splits option.splits\<close>)

lemma array_elems_fresh:
  assumes "closed_above n h" and "val_fresh n v" and "array_elems h v = Inr vs"
  shows "list_all (val_fresh n) vs"
proof -
  from assms(3) obtain a where a: "v = Ref a" "a < length h" "h ! a = Array vs"
    by (auto simp: array_elems_def split: val.splits if_splits obj.splits)
  from assms(2) a(1) have "n \<le> a"
    by (simp add: val_fresh_def)
  with assms(1) a(2) have "obj_fresh n (h ! a)"
    unfolding closed_above_def by blast
  with a(3) show ?thesis
    by (simp add: obj_fresh_def)
qed

lemma delete_prop_fresh:
  assumes "val_fresh n v" and "delete_prop h v k = Inr h'"
  shows "agree_below n h h'" and "closed_above n h \<Longrightarrow> closed_above n h'"
proof -
  show "agree_below n h h'"
    using assms
    by (auto simp: delete_prop_def agree_below_def val_fresh_def
        split: val.splits if_splits obj.splits)
  show "closed_above n h'" if closed: "closed_above n h"
  proof (cases v)
    case (Ref a)
    show ?thesis
    proof (cases "length h \<le> a")
      case True
      with Ref assms(2) closed show ?thesis
        by (simp add: delete_prop_def)
    next
      case False
      show ?thesis
      proof (cases "h ! a")
        case (Object ps)
        with Ref False assms(2) have h': "h' = h[a := Object (filter (\<lambda>p. fst p \<noteq> k) ps)]"
          by (simp add: delete_prop_def)
        have "obj_fresh n (h' ! b)" if b: "n \<le> b" "b < length h'" for b
        proof (cases "b = a")
          case True
          have "obj_fresh n (h ! a)"
            using closed b True h' by (simp add: closed_above_def)
          with Object have "obj_fresh n (Object (filter (\<lambda>p. fst p \<noteq> k) ps))"
            by (simp add: obj_fresh_def list_all_iff)
          with True h' False show ?thesis
            by simp
        next
          case False
          with closed b h' show ?thesis
            by (simp add: closed_above_def)
        qed
        then show ?thesis
          by (simp add: closed_above_def)
      qed (use Ref False assms(2) closed in \<open>simp_all add: delete_prop_def\<close>)
    qed
  qed (use assms(2) closed in \<open>simp_all add: delete_prop_def\<close>)
qed

lemma set_prop_fresh:
  assumes "val_fresh n v" and "set_prop h v k x = Inr h'"
  shows "agree_below n h h'"
  using assms
  by (auto simp: set_prop_def agree_below_def val_fresh_def
      split: val.splits if_splits obj.splits)

lemma strip_masks_fresh:
  "closed_above n h \<Longrightarrow> list_all (val_fresh n) ms \<Longrightarrow> strip_masks h ms = (h', out) \<Longrightarrow>
   agree_below n h h' \<and> closed_above n h'"
proof (induction ms arbitrary: h)
  case Nil
  then show ?case
    by (simp add: agree_below_refl)
next
  case (Cons m ms)
  show ?case
  proof (cases "delete_prop h m ''image''")
    case (Inl e)
    with Cons.prems show ?thesis
      by (simp add: agree_below_refl)
  next
    case (Inr h1)
    from Cons.prems(2) have m: "val_fresh n m" and ms: "list_all (val_fresh n) ms"
      by simp_all
    note d = delete_prop_fresh [OF m Inr]
    from Cons.prems(3) Inr have "strip_masks h1 ms = (h', out)"
      by simp
    from Cons.IH [OF d(2) [OF Cons.prems(1)] ms this] d(1) show ?thesis
      by (blast intro: agree_below_trans)
  qed
qed

lemma strip_frame_fresh:
  assumes "closed_above n h" and "val_fresh n f" and "strip_frame h f = (h', out)"
  shows "agree_below n h h' \<and> closed_above n h'"
proof (cases "delete_prop h f ''image''")
  case (Inl e)
  with assms show ?thesis
    by (simp add: strip_frame_def agree_below_refl)
next
  case (Inr h1)
  note d = delete_prop_fresh [OF assms(2) Inr]
  have c1: "closed_above n h1"
    using d(2) assms(1) .
  show ?thesis
  proof (cases "get_prop h1 f ''masks''")
    case (Inl e)
    with assms(3) Inr d(1) c1 show ?thesis
      by (simp add: strip_frame_def)
  next
    case mv: (Inr mv)
    have fresh_mv: "val_fresh n mv"
      using get_prop_fresh [OF c1 assms(2) mv] .
    show ?thesis
    proof (cases "array_elems h1 mv")
      case (Inl e)
      with assms(3) Inr mv d(1) c1 show ?thesis
        by (simp add: strip_frame_def)
    next
      case ms: (Inr ms)
      have "strip_masks h1 ms = (h', out)"
        using assms(3) Inr mv ms by (simp add: strip_frame_def)
      from strip_masks_fresh [OF c1 array_elems_fresh [OF c1 fresh_mv ms] this] d(1)
      show ?thesis
        by (blast intro: agree_below_trans)
    qed
  qed
qed

lemma strip_frames_fresh:
  "closed_above n h \<Longrightarrow> list_all (val_fresh n) fs \<Longrightarrow> strip_frames h fs = (h', out) \<Longrightarrow>
   agree_below n h h' \<and> closed_above n h'"
proof (induction fs arbitrary: h)
  case Nil
  then show ?case
    by (simp add: agree_below_refl)
next
  case (Cons f fs)
  obtain h1 o1 where sf: "strip_frame h f = (h1, o1)"
    by (cases "strip_frame h f")
  from Cons.prems(2) have f: "val_fresh n f" and fs: "list_all (val_fresh n) fs"
    by simp_all
  note one = strip_frame_fresh [OF Cons.prems(1) f sf]
  show ?case
  proof (cases o1)
    case None
    with Cons.prems(3) sf have "strip_frames h1 fs = (h', out)"
      by simp
    from Cons.IH [OF conjunct2 [OF one] fs this] one show ?thesis
      by (blast intro: agree_below_trans)
  next
    case (Some e)
    with Cons.prems(3) sf one show ?thesis
      by simp
  qed
qed

lemma deep_copy_fresh:
  assumes "deep_copy h v = Inr (c, h1)"
  shows "agree_below (length h) h h1 \<and> closed_above (length h) h1 \<and> val_fresh (length h) c"
proof -
  from assms obtain j where "revive j h = (c, h1)"
    by (auto simp: deep_copy_def split: sum.splits option.splits)
  moreover have "closed_above (length h) h"
    by (auto simp: closed_above_def)
  ultimately show ?thesis
    using revive_fresh(1) [of "length h" h j] by simp
qed

lemma prepare_card_agree:
  assumes "prepare_card af h c = (h', r)"
  shows "agree_below (length h) h h'"
proof (cases "deep_copy h c")
  case (Inl e)
  with assms show ?thesis
    by (simp add: prepare_card_def agree_below_refl)
next
  case (Inr p)
  obtain cardToSave h1 where p: "p = (cardToSave, h1)"
    by (cases p)
  note copy = deep_copy_fresh [OF Inr [unfolded p]]
  then have a1: "agree_below (length h) h h1" and c1: "closed_above (length h) h1"
    and v1: "val_fresh (length h) cardToSave"
    by simp_all
  show ?thesis
  proof (cases "get_prop h1 cardToSave ''frames''")
    case (Inl e)
    with assms Inr p a1 show ?thesis
      by (simp add: prepare_card_def)
  next
    case fv: (Inr fv)
    have fresh_fv: "val_fresh (length h) fv"
      using get_prop_fresh [OF c1 v1 fv] .
    show ?thesis
    proof (cases "array_elems h1 fv")
      case (Inl e)
      with assms Inr p fv a1 show ?thesis
        by (simp add: prepare_card_def)
    next
      case fs: (Inr fs)
      obtain h2 o2 where st: "strip_frames h1 fs = (h2, o2)"
        by (cases "strip_frames h1 fs")
      from strip_frames_fresh [OF c1 array_elems_fresh [OF c1 fresh_fv fs] st]
      have a2: "agree_below (length h) h1 h2"
        by simp
      show ?thesis
      proof (cases o2)
        case (Some e)
        with assms Inr p fv fs st have "h' = h2"
          by (simp add: prepare_card_def)
        with a1 a2 show ?thesis
          by (blast intro: agree_below_trans)
      next
        case None
        show ?thesis
        proof (cases "set_prop h2 cardToSave ''autoFrame'' af")
          case (Inl e)
          with assms Inr p fv fs st None have "h' = h2"
            by (simp add: prepare_card_def)
          with a1 a2 show ?thesis
            by (blast intro: agree_below_trans)
        next
          case h3: (Inr h3)
          with assms Inr p fv fs st None have "h' = h3"
            by (simp add: prepare_card_def)
          with a1 a2 set_prop_fresh [OF v1 h3] show ?thesis
            by (blast intro: agree_below_trans)
        qed
      qed
    qed
  qed
qed

lemma agree_below_take: "agree_below (length h) h h' \<Longrightarrow> take (length h) h' = h"
  by (auto simp: agree_below_def list_eq_iff_nth_eq)

text \<open>
  C9. A click on the save button changes no object that existed before it, whether the
  handler sends the request, aborts or throws: the store after the handler begins with
  the store before it, object by object, and \<open>card\<close> refers to the same object. The
  stripping and the auto-frame attachment touch the copy only.
\<close>

theorem save_leaves_card:
  "take (length (store s)) (store (fst (saveBtn_click c env s))) = store s
   \<and> the_card (fst (saveBtn_click c env s)) = the_card s"
proof -
  obtain h3 r where prep: "prepare_card (autoFrame_val env) (store s) (the_card s) = (h3, r)"
    by (cases "prepare_card (autoFrame_val env) (store s) (the_card s)")
  note a3 = prepare_card_agree [OF prep]
  then have len: "length (store s) \<le> length h3"
    by (simp add: agree_below_def)
  have a4: "agree_below (length (store s)) (store s) (h3 @ ext)" for ext
    using a3 agree_below_append [OF len] by (rule agree_below_trans)
  have "agree_below (length (store s)) (store s) (store (fst (saveBtn_click c env s)))
      \<and> the_card (fst (saveBtn_click c env s)) = the_card s"
    using prep a3 a4
    by (auto simp: saveBtn_click_def Let_def agree_below_refl split: sum.splits)
  then show ?thesis
    by (simp add: agree_below_take)
qed

theorem save_leaves_card_witness:
  "take (length (store example_page))
     (store (fst (saveBtn_click example_consts example_env example_page))) = example_store
   \<and> store (fst (saveBtn_click example_consts example_env example_page)) ! 5
       = Object [(''name'', Str ''Frame''), (''image'', Ref 6), (''masks'', Ref 7)]
   \<and> the_card (fst (saveBtn_click example_consts example_env example_page)) = Ref 0"
proof -
  let ?h = "store (fst (saveBtn_click example_consts example_env example_page))"
  note kept = save_leaves_card [of example_page example_consts example_env]
  have n: "length (store example_page) = 14"
    by (simp add: example_page_def example_store_def)
  have "take 14 ?h ! 5 = ?h ! 5"
    by simp
  with kept n have "?h ! 5 = store example_page ! 5"
    by simp
  then show ?thesis
    using kept by (simp add: example_page_def example_store_def)
qed

section \<open>The stripping\<close>

lemma keeps_refl: "keeps h h"
  by (simp add: keeps_def)

lemma keeps_trans:
  assumes "keeps h h1" and "keeps h1 h2"
  shows "keeps h h2"
  unfolding keeps_def
proof (intro conjI allI impI)
  show "length h2 = length h"
    using assms by (simp add: keeps_def)
next
  fix a ps
  assume a: "a < length h" and ob: "h ! a = Object ps"
  from assms(1) a ob obtain ps1 where ps1: "h1 ! a = Object ps1"
    "''image'' \<in> fst ` set ps1 \<longrightarrow> ''image'' \<in> fst ` set ps"
    "map_of ps1 ''masks'' = map_of ps ''masks''" "map_of ps1 ''frames'' = map_of ps ''frames''"
    unfolding keeps_def by blast
  from assms(1) a have a1: "a < length h1"
    by (simp add: keeps_def)
  from assms(2) a1 ps1(1) obtain ps2 where ps2: "h2 ! a = Object ps2"
    "''image'' \<in> fst ` set ps2 \<longrightarrow> ''image'' \<in> fst ` set ps1"
    "map_of ps2 ''masks'' = map_of ps1 ''masks''" "map_of ps2 ''frames'' = map_of ps1 ''frames''"
    unfolding keeps_def by blast
  show "\<exists>ps'. h2 ! a = Object ps'
      \<and> (''image'' \<in> fst ` set ps' \<longrightarrow> ''image'' \<in> fst ` set ps)
      \<and> map_of ps' ''masks'' = map_of ps ''masks''
      \<and> map_of ps' ''frames'' = map_of ps ''frames''"
    using ps1 ps2 by auto
next
  fix a
  assume a: "a < length h" and other: "\<forall>ps. h ! a \<noteq> Object ps"
  from assms(1) a other have same: "h1 ! a = h ! a"
    unfolding keeps_def by blast
  from assms(1) a have a1: "a < length h1"
    by (simp add: keeps_def)
  from assms(2) a1 same other have "h2 ! a = h1 ! a"
    unfolding keeps_def by auto
  with same show "h2 ! a = h ! a"
    by simp
qed

lemma map_of_filter_other:
  "k' \<noteq> k \<Longrightarrow> map_of (filter (\<lambda>p. fst p \<noteq> k) ps) k' = map_of ps k'"
  by (induction ps) auto

lemma keeps_update:
  assumes "a < length h" and "h ! a = Object ps"
    and "''image'' \<in> fst ` set ps' \<longrightarrow> ''image'' \<in> fst ` set ps"
    and "map_of ps' ''masks'' = map_of ps ''masks''"
    and "map_of ps' ''frames'' = map_of ps ''frames''"
  shows "keeps h (h[a := Object ps'])"
  unfolding keeps_def
proof (intro conjI allI impI)
  fix b qs
  assume "b < length h" and "h ! b = Object qs"
  with assms show "\<exists>ps'a. h[a := Object ps'] ! b = Object ps'a
      \<and> (''image'' \<in> fst ` set ps'a \<longrightarrow> ''image'' \<in> fst ` set qs)
      \<and> map_of ps'a ''masks'' = map_of qs ''masks''
      \<and> map_of ps'a ''frames'' = map_of qs ''frames''"
    by (cases "b = a") auto
next
  fix b
  assume "b < length h" and "\<forall>qs. h ! b \<noteq> Object qs"
  with assms show "h[a := Object ps'] ! b = h ! b"
    by (cases "b = a") auto
qed simp

lemma delete_image_keeps:
  assumes "delete_prop h v ''image'' = Inr h'"
  shows "keeps h h'"
proof (cases v)
  case (Ref a)
  show ?thesis
  proof (cases "length h \<le> a")
    case True
    with Ref assms show ?thesis
      by (simp add: delete_prop_def keeps_refl)
  next
    case False
    show ?thesis
    proof (cases "h ! a")
      case (Object ps)
      with Ref False assms have "h' = h[a := Object (filter (\<lambda>p. fst p \<noteq> ''image'') ps)]"
        by (simp add: delete_prop_def)
      moreover have "keeps h (h[a := Object (filter (\<lambda>p. fst p \<noteq> ''image'') ps)])"
        using False Object by (intro keeps_update) (auto simp: map_of_filter_other)
      ultimately show ?thesis
        by simp
    qed (use Ref False assms in \<open>simp_all add: delete_prop_def keeps_refl\<close>)
  qed
qed (use assms in \<open>simp_all add: delete_prop_def keeps_refl\<close>)

lemma delete_image_no_image:
  assumes "delete_prop h v ''image'' = Inr h'"
  shows "no_image h' v"
  using assms
  by (auto simp: delete_prop_def no_image_def split: val.splits if_splits obj.splits)

lemma put_keys: "fst ` set (put k x ps) = insert k (fst ` set ps)"
  by (induction ps) auto

lemma map_of_put_other: "k' \<noteq> k \<Longrightarrow> map_of (put k x ps) k' = map_of ps k'"
  by (induction ps) auto

lemma set_autoFrame_keeps:
  assumes "set_prop h v ''autoFrame'' x = Inr h'"
  shows "keeps h h'"
proof (cases v)
  case (Ref a)
  show ?thesis
  proof (cases "length h \<le> a")
    case True
    with Ref assms show ?thesis
      by (simp add: set_prop_def keeps_refl)
  next
    case False
    show ?thesis
    proof (cases "h ! a")
      case (Object ps)
      with Ref False assms have "h' = h[a := Object (put ''autoFrame'' x ps)]"
        by (simp add: set_prop_def)
      moreover have "keeps h (h[a := Object (put ''autoFrame'' x ps)])"
        using False Object by (intro keeps_update) (auto simp: map_of_put_other put_keys)
      ultimately show ?thesis
        by simp
    qed (use Ref False assms in \<open>simp_all add: set_prop_def keeps_refl\<close>)
  qed
qed (use assms in \<open>simp_all add: set_prop_def keeps_refl\<close>)

lemma no_image_keeps:
  assumes "no_image h v" and "keeps h h'"
  shows "no_image h' v"
  unfolding no_image_def
proof (intro allI impI)
  fix a ps'
  assume v: "v = Ref a \<and> a < length h' \<and> h' ! a = Object ps'"
  with assms(2) have a: "a < length h"
    by (simp add: keeps_def)
  show "''image'' \<notin> fst ` set ps'"
  proof (cases "\<exists>ps. h ! a = Object ps")
    case True
    then obtain ps where ps: "h ! a = Object ps"
      by blast
    with assms(2) a obtain qs where qs: "h' ! a = Object qs"
      "''image'' \<in> fst ` set qs \<longrightarrow> ''image'' \<in> fst ` set ps"
      unfolding keeps_def by blast
    from assms(1) v a ps have "''image'' \<notin> fst ` set ps"
      unfolding no_image_def by blast
    with qs v show ?thesis
      by auto
  next
    case False
    with assms(2) a have "h' ! a = h ! a"
      unfolding keeps_def by blast
    with False v show ?thesis
      by auto
  qed
qed

lemma host_value_keeps:
  assumes "host_value h v" and "keeps h h'"
  shows "host_value h' v"
proof -
  from assms(1) obtain a c qs where v: "v = Ref a" "a < length h" "h ! a = Host c qs"
    unfolding host_value_def by blast
  from assms(2) v(2,3) have "h' ! a = Host c qs"
    unfolding keeps_def by auto
  moreover have "length h' = length h"
    using assms(2) by (simp add: keeps_def)
  ultimately show ?thesis
    using v unfolding host_value_def by auto
qed

lemma frame_plain_keeps:
  assumes "frame_plain h f" and "keeps h h'"
  shows "frame_plain h' f"
proof -
  from assms(1) obtain a ps m ms where f: "f = Ref a" "a < length h" "h ! a = Object ps"
    "''image'' \<notin> fst ` set ps" "map_of ps ''masks'' = Some (Ref m)" "m < length h"
    "h ! m = Array ms" "\<forall>x \<in> set ms. no_image h x"
    unfolding frame_plain_def by blast
  from assms(2) f(2,3) obtain ps' where ps': "h' ! a = Object ps'"
    "''image'' \<in> fst ` set ps' \<longrightarrow> ''image'' \<in> fst ` set ps"
    "map_of ps' ''masks'' = map_of ps ''masks''"
    unfolding keeps_def by blast
  from assms(2) f(6,7) have m': "h' ! m = Array ms"
    unfolding keeps_def by auto
  have len: "length h' = length h"
    using assms(2) by (simp add: keeps_def)
  have "\<forall>x \<in> set ms. no_image h' x"
    using f(8) no_image_keeps [OF _ assms(2)] by blast
  with f ps' m' len show ?thesis
    unfolding frame_plain_def by auto
qed

lemma frame_stripped_keeps:
  assumes "frame_stripped h f" and "keeps h h'"
  shows "frame_stripped h' f"
  using assms frame_plain_keeps host_value_keeps unfolding frame_stripped_def by blast

lemma strip_masks_stripped:
  "strip_masks h ms = (h', None) \<Longrightarrow> keeps h h' \<and> (\<forall>x \<in> set ms. no_image h' x)"
proof (induction ms arbitrary: h)
  case Nil
  then show ?case
    by (simp add: keeps_refl)
next
  case (Cons m ms)
  from Cons.prems obtain h1 where d: "delete_prop h m ''image'' = Inr h1"
    and rest: "strip_masks h1 ms = (h', None)"
    by (auto split: sum.splits)
  note ih = Cons.IH [OF rest]
  have "keeps h h'"
    using delete_image_keeps [OF d] ih by (blast intro: keeps_trans)
  moreover have "no_image h' m"
    using delete_image_no_image [OF d] ih by (blast intro: no_image_keeps)
  ultimately show ?case
    using ih by simp
qed

lemma digit_char_not_s:
  assumes "d < 10"
  shows "digit_char d \<noteq> CHR ''s''"
  using assms by (simp add: digit_char_def char_of_eq_iff take_bit_eq_mod)

lemma index_of_key_frames:
  "index_of_key n ''masks'' = None" "index_of_key n ''frames'' = None"
proof -
  have d: "i mod 10 < 10" for i :: nat
    by simp
  have "show_nat i \<noteq> ''masks''" for i
    using last_show_nat [of i] digit_char_not_s [OF d [of i]] by auto
  then have "filter (\<lambda>i. show_nat i = ''masks'') [0..<n] = []"
    by (auto simp: filter_empty_conv)
  then show "index_of_key n ''masks'' = None"
    by (simp add: index_of_key_def)
  have "show_nat i \<noteq> ''frames''" for i
    using last_show_nat [of i] digit_char_not_s [OF d [of i]] by auto
  then have "filter (\<lambda>i. show_nat i = ''frames'') [0..<n] = []"
    by (auto simp: filter_empty_conv)
  then show "index_of_key n ''frames'' = None"
    by (simp add: index_of_key_def)
qed

lemma get_prop_array_holder:
  assumes "get_prop h v k = Inr (Ref m)" and "k = ''masks'' \<or> k = ''frames''"
  shows "host_value h v
     \<or> (\<exists>a ps. v = Ref a \<and> a < length h \<and> h ! a = Object ps \<and> map_of ps k = Some (Ref m))"
proof -
  from get_prop_ref [OF assms(1)] obtain a where v: "v = Ref a"
    by blast
  have a: "a < length h"
    using assms(1) v by (auto simp: get_prop_def split: if_splits)
  show ?thesis
  proof (cases "h ! a")
    case (Object ps)
    with assms(1) v a have "map_of ps k = Some (Ref m)"
      by (auto simp: get_prop_def split: option.splits)
    with v a Object show ?thesis
      by blast
  next
    case (Array vs)
    with assms v a show ?thesis
      by (auto simp: get_prop_def index_of_key_frames)
  next
    case (Host c qs)
    with v a show ?thesis
      unfolding host_value_def by blast
  qed
qed

lemma array_elems_array:
  assumes "array_elems h v = Inr vs"
  shows "\<exists>a. v = Ref a \<and> a < length h \<and> h ! a = Array vs"
  using assms by (auto simp: array_elems_def split: val.splits if_splits obj.splits)

lemma strip_frame_stripped:
  assumes "strip_frame h f = (h', None)"
  shows "keeps h h' \<and> frame_stripped h' f"
proof -
  from assms obtain h1 mv ms where d: "delete_prop h f ''image'' = Inr h1"
    and mv: "get_prop h1 f ''masks'' = Inr mv" and ms: "array_elems h1 mv = Inr ms"
    and rest: "strip_masks h1 ms = (h', None)"
    by (auto simp: strip_frame_def split: sum.splits)
  from array_elems_array [OF ms] obtain m where m: "mv = Ref m" "m < length h1" "h1 ! m = Array ms"
    by blast
  note masks = strip_masks_stripped [OF rest]
  have k1: "keeps h1 h'"
    using masks by simp
  have kept: "keeps h h'"
    using delete_image_keeps [OF d] k1 by (rule keeps_trans)
  from get_prop_array_holder [OF mv [unfolded m(1)]]
  have "host_value h1 f
      \<or> (\<exists>a ps. f = Ref a \<and> a < length h1 \<and> h1 ! a = Object ps
            \<and> map_of ps ''masks'' = Some (Ref m))"
    by simp
  then have "frame_stripped h' f"
  proof
    assume "host_value h1 f"
    from host_value_keeps [OF this k1] show ?thesis
      by (simp add: frame_stripped_def)
  next
    assume "\<exists>a ps. f = Ref a \<and> a < length h1 \<and> h1 ! a = Object ps
        \<and> map_of ps ''masks'' = Some (Ref m)"
    then obtain a ps where a: "f = Ref a" "a < length h1" "h1 ! a = Object ps"
      "map_of ps ''masks'' = Some (Ref m)"
      by blast
    have bare: "''image'' \<notin> fst ` set ps"
      using delete_image_no_image [OF d] a unfolding no_image_def by blast
    from k1 a(2,3) obtain ps' where ps': "h' ! a = Object ps'"
      "''image'' \<in> fst ` set ps' \<longrightarrow> ''image'' \<in> fst ` set ps"
      "map_of ps' ''masks'' = map_of ps ''masks''"
      unfolding keeps_def by blast
    from k1 m(2,3) have m': "h' ! m = Array ms"
      unfolding keeps_def by auto
    have len: "length h' = length h1"
      using k1 by (simp add: keeps_def)
    have "frame_plain h' f"
      unfolding frame_plain_def
      using a(1,2,4) m(2) ps' m' len masks bare by auto
    then show ?thesis
      by (simp add: frame_stripped_def)
  qed
  with kept show ?thesis
    by simp
qed

lemma strip_frames_stripped:
  "strip_frames h fs = (h', None) \<Longrightarrow> keeps h h' \<and> (\<forall>f \<in> set fs. frame_stripped h' f)"
proof (induction fs arbitrary: h)
  case Nil
  then show ?case
    by (simp add: keeps_refl)
next
  case (Cons f fs)
  from Cons.prems obtain h1 where one: "strip_frame h f = (h1, None)"
    and rest: "strip_frames h1 fs = (h', None)"
    by (auto split: prod.splits option.splits)
  note first = strip_frame_stripped [OF one]
  note ih = Cons.IH [OF rest]
  have "keeps h h'"
    using first ih by (blast intro: keeps_trans)
  moreover have "frame_stripped h' f"
    using first ih by (blast intro: frame_stripped_keeps)
  ultimately show ?case
    using ih by simp
qed

lemma card_plain_keeps:
  assumes "card_plain h c" and "keeps h h'"
  shows "card_plain h' c"
proof -
  from assms(1) obtain b ps fa fs where c: "c = Ref b" "b < length h" "h ! b = Object ps"
    "map_of ps ''frames'' = Some (Ref fa)" "fa < length h" "h ! fa = Array fs"
    "\<forall>f \<in> set fs. frame_stripped h f"
    unfolding card_plain_def by blast
  from assms(2) c(2,3) obtain ps' where ps': "h' ! b = Object ps'"
    "map_of ps' ''frames'' = map_of ps ''frames''"
    unfolding keeps_def by blast
  from assms(2) c(5,6) have fa': "h' ! fa = Array fs"
    unfolding keeps_def by auto
  have len: "length h' = length h"
    using assms(2) by (simp add: keeps_def)
  have "\<forall>f \<in> set fs. frame_stripped h' f"
    using c(7) frame_stripped_keeps [OF _ assms(2)] by blast
  with c ps' fa' len show ?thesis
    unfolding card_plain_def by auto
qed

lemma card_stripped_keeps:
  assumes "card_stripped h c" and "keeps h h'"
  shows "card_stripped h' c"
  using assms card_plain_keeps host_value_keeps unfolding card_stripped_def by blast

lemma prepare_card_stripped:
  assumes "prepare_card af h c = (h3, Inr cardToSave)"
  shows "card_stripped h3 cardToSave"
proof -
  from assms obtain h1 fv fs h2 where fv: "get_prop h1 cardToSave ''frames'' = Inr fv"
    and fs: "array_elems h1 fv = Inr fs"
    and strip: "strip_frames h1 fs = (h2, None)"
    and af: "set_prop h2 cardToSave ''autoFrame'' af = Inr h3"
    by (auto simp: prepare_card_def split: sum.splits prod.splits option.splits)
  from array_elems_array [OF fs] obtain fa where fa: "fv = Ref fa" "fa < length h1"
    "h1 ! fa = Array fs"
    by blast
  note stripped = strip_frames_stripped [OF strip]
  have k12: "keeps h1 h2"
    using stripped by simp
  from get_prop_array_holder [OF fv [unfolded fa(1)]]
  have "host_value h1 cardToSave
      \<or> (\<exists>b ps. cardToSave = Ref b \<and> b < length h1 \<and> h1 ! b = Object ps
            \<and> map_of ps ''frames'' = Some (Ref fa))"
    by simp
  then have "card_stripped h2 cardToSave"
  proof
    assume "host_value h1 cardToSave"
    from host_value_keeps [OF this k12] show ?thesis
      by (simp add: card_stripped_def)
  next
    assume "\<exists>b ps. cardToSave = Ref b \<and> b < length h1 \<and> h1 ! b = Object ps
        \<and> map_of ps ''frames'' = Some (Ref fa)"
    then obtain b ps where b: "cardToSave = Ref b" "b < length h1" "h1 ! b = Object ps"
      "map_of ps ''frames'' = Some (Ref fa)"
      by blast
    from k12 b(2,3) obtain ps2 where ps2: "h2 ! b = Object ps2"
      "map_of ps2 ''frames'' = map_of ps ''frames''"
      unfolding keeps_def by blast
    from k12 fa(2,3) have fa2: "h2 ! fa = Array fs"
      unfolding keeps_def by auto
    have len: "length h2 = length h1"
      using k12 by (simp add: keeps_def)
    have "card_plain h2 cardToSave"
      unfolding card_plain_def
      using b(1,2,4) fa(2) ps2 fa2 len stripped by auto
    then show ?thesis
      by (simp add: card_stripped_def)
  qed
  then show ?thesis
    using set_autoFrame_keeps [OF af] by (rule card_stripped_keeps)
qed

lemma no_image_append:
  assumes "no_image h v" and "\<forall>ps. ob = Object ps \<longrightarrow> ''image'' \<notin> fst ` set ps"
  shows "no_image (h @ [ob]) v"
  using assms by (auto simp: no_image_def nth_append split: if_splits)

lemma host_value_append: "host_value h v \<Longrightarrow> host_value (h @ [ob]) v"
  by (auto simp: host_value_def nth_append)

lemma frame_stripped_append:
  assumes "frame_stripped h f" and "\<forall>ps. ob = Object ps \<longrightarrow> ''image'' \<notin> fst ` set ps"
  shows "frame_stripped (h @ [ob]) f"
proof (cases "host_value h f")
  case True
  then show ?thesis
    by (simp add: frame_stripped_def host_value_append)
next
  case False
  with assms(1) obtain a ps m ms where f: "f = Ref a" "a < length h" "h ! a = Object ps"
    "''image'' \<notin> fst ` set ps" "map_of ps ''masks'' = Some (Ref m)" "m < length h"
    "h ! m = Array ms" "\<forall>x \<in> set ms. no_image h x"
    unfolding frame_stripped_def frame_plain_def by blast
  have "\<forall>x \<in> set ms. no_image (h @ [ob]) x"
    using f(8) no_image_append [OF _ assms(2)] by blast
  with f have "frame_plain (h @ [ob]) f"
    unfolding frame_plain_def by (auto simp: nth_append)
  then show ?thesis
    by (simp add: frame_stripped_def)
qed

lemma card_stripped_append:
  assumes "card_stripped h c" and "\<forall>ps. ob = Object ps \<longrightarrow> ''image'' \<notin> fst ` set ps"
  shows "card_stripped (h @ [ob]) c"
proof (cases "host_value h c")
  case True
  then show ?thesis
    by (simp add: card_stripped_def host_value_append)
next
  case False
  with assms(1) obtain b ps fa fs where c: "c = Ref b" "b < length h" "h ! b = Object ps"
    "map_of ps ''frames'' = Some (Ref fa)" "fa < length h" "h ! fa = Array fs"
    "\<forall>f \<in> set fs. frame_stripped h f"
    unfolding card_stripped_def card_plain_def by blast
  have "\<forall>f \<in> set fs. frame_stripped (h @ [ob]) f"
    using c(7) frame_stripped_append [OF _ assms(2)] by blast
  with c have "card_plain (h @ [ob]) c"
    unfolding card_plain_def by (auto simp: nth_append)
  then show ?thesis
    by (simp add: card_stripped_def)
qed

section \<open>Serialization of a stripped card\<close>

lemma collect_Inr: "collect rs = Inr ys \<Longrightarrow> rs = map Inr ys"
proof (induction rs arbitrary: ys)
  case Nil
  then show ?case
    by simp
next
  case (Cons r rs)
  then show ?case
    by (auto split: sum.splits)
qed

lemma map_Inr_source:
  assumes "map F xs = map Inr ys" and "y \<in> set ys"
  shows "\<exists>x \<in> set xs. F x = Inr y"
proof -
  from assms(2) have "Inr y \<in> set (map Inr ys)"
    by simp
  with assms(1) have "Inr y \<in> set (map F xs)"
    by simp
  then show ?thesis
    by auto
qed

lemma map_Inr_result:
  assumes "map F xs = map Inr ys" and "x \<in> set xs"
  shows "\<exists>y \<in> set ys. F x = Inr y"
proof -
  from assms(2) have "F x \<in> set (map F xs)"
    by simp
  with assms(1) have "F x \<in> set (map Inr ys)"
    by simp
  then show ?thesis
    by auto
qed

lemma members_keys: "fst ` set (members ks js) \<subseteq> set ks"
  by (induction ks js rule: members.induct) auto

lemma members_map_of:
  "map (\<lambda>p. F (snd p)) ps = map Inr js \<Longrightarrow> map_of ps k = Some v \<Longrightarrow> F v = Inr (Some j) \<Longrightarrow>
   map_of (members (map fst ps) js) k = Some j"
proof (induction ps arbitrary: js)
  case Nil
  then show ?case
    by simp
next
  case (Cons p ps)
  from Cons.prems(1) obtain x js' where js: "js = x # js'" and x: "F (snd p) = Inr x"
    and rest: "map (\<lambda>p. F (snd p)) ps = map Inr js'"
    by (cases js) auto
  show ?case
  proof (cases "fst p = k")
    case True
    with Cons.prems(2) have "snd p = v"
      by (cases p) simp
    with x Cons.prems(3) have "x = Some j"
      by simp
    with js True show ?thesis
      by (cases p) simp
  next
    case False
    with Cons.prems(2) have "map_of ps k = Some v"
      by (cases p) (simp split: if_splits)
    from Cons.IH [OF rest this Cons.prems(3)] js False show ?thesis
      by (cases p; cases x) simp_all
  qed
qed

lemma serialize_object_parts:
  assumes "serialize h stk (Ref a) = Inr x" and "a < length h" and "h ! a = Object ps"
  shows "\<exists>js. x = Some (JObj (members (map fst ps) js))
      \<and> map (\<lambda>p. serialize h (a # stk) (snd p)) ps = map Inr js"
proof -
  have fresh: "a \<notin> set stk"
    using assms(1) by (auto simp: serialize.simps split: if_splits)
  from assms(1) serialize_object [OF fresh assms(2,3)]
  obtain js where "collect (map (\<lambda>p. serialize h (a # stk) (snd p)) ps) = Inr js"
    and "x = Some (JObj (members (map fst ps) js))"
    by (auto split: sum.splits)
  with collect_Inr show ?thesis
    by blast
qed

lemma serialize_array_parts:
  assumes "serialize h stk (Ref a) = Inr x" and "a < length h" and "h ! a = Array vs"
  shows "\<exists>js. x = Some (JArr (map element js)) \<and> map (serialize h (a # stk)) vs = map Inr js"
proof -
  from assms obtain js where "collect (map (serialize h (a # stk)) vs) = Inr js"
    and "x = Some (JArr (map element js))"
    by (auto simp: serialize.simps split: if_splits sum.splits)
  with collect_Inr show ?thesis
    by blast
qed

lemma serialize_no_image:
  assumes "no_image h v" and "serialize h stk v = Inr x"
  shows "\<not> has_key ''image'' (element x)"
proof (cases v)
  case (Ref a)
  have a: "a < length h"
    using assms(2) Ref by (auto simp: serialize.simps split: if_splits)
  show ?thesis
  proof (cases "h ! a")
    case (Object ps)
    from serialize_object_parts [OF assms(2) [unfolded Ref] a Object] obtain js
      where x: "x = Some (JObj (members (map fst ps) js))"
      by blast
    have "''image'' \<notin> fst ` set ps"
      using assms(1) Ref a Object unfolding no_image_def by blast
    with members_keys [of "map fst ps" js] have "''image'' \<notin> fst ` set (members (map fst ps) js)"
      by auto
    with x show ?thesis
      by (simp add: has_key_def element_def)
  next
    case (Array vs)
    from serialize_array_parts [OF assms(2) [unfolded Ref] a Array] show ?thesis
      by (auto simp: has_key_def element_def)
  next
    case (Host c qs)
    with assms(2) Ref a have "x = Some (JObj [])"
      by (auto simp: serialize.simps split: if_splits)
    then show ?thesis
      by (simp add: has_key_def element_def)
  qed
qed (use assms(2) in \<open>auto simp: has_key_def element_def\<close>)

lemma serialize_host:
  assumes "host_value h v" and "serialize h stk v = Inr x"
  shows "x = Some (JObj [])"
proof -
  from assms(1) obtain a c qs where v: "v = Ref a" "a < length h" "h ! a = Host c qs"
    unfolding host_value_def by blast
  with assms(2) show ?thesis
    by (auto simp: serialize.simps split: if_splits)
qed

lemma serialize_frame:
  assumes "frame_stripped h f" and "serialize h stk f = Inr x"
  shows "\<not> has_key ''image'' (element x)
     \<and> (\<forall>m \<in> set (elements (field ''masks'' (element x))). \<not> has_key ''image'' m)"
proof (cases "host_value h f")
  case True
  from serialize_host [OF True assms(2)] show ?thesis
    by (simp add: has_key_def element_def field_def elements_def)
next
  case False
  with assms(1) obtain a ps m ms where f: "f = Ref a" "a < length h" "h ! a = Object ps"
    "''image'' \<notin> fst ` set ps" "map_of ps ''masks'' = Some (Ref m)" "m < length h"
    "h ! m = Array ms" "\<forall>x \<in> set ms. no_image h x"
    unfolding frame_stripped_def frame_plain_def by blast
  from serialize_object_parts [OF assms(2) [unfolded f(1)] f(2,3)] obtain js
    where x: "x = Some (JObj (members (map fst ps) js))"
      and js: "map (\<lambda>p. serialize h (a # stk) (snd p)) ps = map Inr js"
    by blast
  have bare: "\<not> has_key ''image'' (element x)"
    using members_keys [of "map fst ps" js] f(4) x by (auto simp: has_key_def element_def)
  have "(''masks'', Ref m) \<in> set ps"
    using f(5) by (rule map_of_SomeD)
  from map_Inr_result [OF js this] obtain y where y: "serialize h (a # stk) (Ref m) = Inr y"
    by auto
  from serialize_array_parts [OF y f(6,7)] obtain jms
    where jm: "y = Some (JArr (map element jms))"
      and jms: "map (serialize h (m # a # stk)) ms = map Inr jms"
    by blast
  have "map_of (members (map fst ps) js) ''masks'' = Some (JArr (map element jms))"
    using members_map_of [OF js f(5)] y jm by simp
  with x have masks: "elements (field ''masks'' (element x)) = map element jms"
    by (simp add: elements_def field_def element_def)
  have "\<not> has_key ''image'' (element z)" if "z \<in> set jms" for z
  proof -
    from map_Inr_source [OF jms that] obtain v where "v \<in> set ms"
      and "serialize h (m # a # stk) v = Inr z"
      by blast
    with f(8) serialize_no_image show ?thesis
      by blast
  qed
  with bare masks show ?thesis
    by auto
qed

lemma serialize_card:
  assumes "card_stripped h c" and "serialize h stk c = Inr (Some j)"
  shows "image_free j"
proof (cases "host_value h c")
  case True
  from serialize_host [OF True assms(2)] show ?thesis
    by (simp add: image_free_def field_def elements_def)
next
  case False
  with assms(1) obtain b ps fa fs where c: "c = Ref b" "b < length h" "h ! b = Object ps"
    "map_of ps ''frames'' = Some (Ref fa)" "fa < length h" "h ! fa = Array fs"
    "\<forall>f \<in> set fs. frame_stripped h f"
    unfolding card_stripped_def card_plain_def by blast
  from serialize_object_parts [OF assms(2) [unfolded c(1)] c(2,3)] obtain js
    where j: "j = JObj (members (map fst ps) js)"
      and js: "map (\<lambda>p. serialize h (b # stk) (snd p)) ps = map Inr js"
    by auto
  have "(''frames'', Ref fa) \<in> set ps"
    using c(4) by (rule map_of_SomeD)
  from map_Inr_result [OF js this] obtain y where y: "serialize h (b # stk) (Ref fa) = Inr y"
    by auto
  from serialize_array_parts [OF y c(5,6)] obtain jfs
    where jf: "y = Some (JArr (map element jfs))"
      and jfs: "map (serialize h (fa # b # stk)) fs = map Inr jfs"
    by blast
  have "map_of (members (map fst ps) js) ''frames'' = Some (JArr (map element jfs))"
    using members_map_of [OF js c(4)] y jf by simp
  with j have frames: "elements (field ''frames'' j) = map element jfs"
    by (simp add: elements_def field_def)
  have "\<not> has_key ''image'' (element z)
      \<and> (\<forall>m \<in> set (elements (field ''masks'' (element z))). \<not> has_key ''image'' m)"
    if "z \<in> set jfs" for z
  proof -
    from map_Inr_source [OF jfs that] obtain f where "f \<in> set fs"
      and "serialize h (fa # b # stk) f = Inr z"
      by blast
    with c(7) serialize_frame show ?thesis
      by blast
  qed
  with frames show ?thesis
    unfolding image_free_def by auto
qed

lemma serialize_data_face:
  assumes ser: "serialize (h @ [Object [(k1, v1), (k2, Num n), (k3, Ref a), (k4, Str u)]]) []
                  (Ref (length h)) = Inr body"
    and v1: "v1 = Null \<or> (\<exists>m. v1 = Num m)"
  shows "\<exists>j1 j3. body = Some (JObj [(k1, j1), (k2, JNum n), (k3, j3), (k4, JStr u)])
      \<and> serialize (h @ [Object [(k1, v1), (k2, Num n), (k3, Ref a), (k4, Str u)]]) [length h]
            (Ref a) = Inr (Some j3)"
proof -
  let ?h = "h @ [Object [(k1, v1), (k2, Num n), (k3, Ref a), (k4, Str u)]]"
  obtain j1 where j1: "serialize ?h [length h] v1 = Inr (Some j1)"
    using v1 by auto
  have unfolded: "serialize ?h [] (Ref (length h)) =
      (case serialize ?h [length h] (Ref a) of
         Inl e \<Rightarrow> Inl e
       | Inr x \<Rightarrow> Inr (Some (JObj (members [k1, k2, k3, k4] [Some j1, Some (JNum n), x, Some (JStr u)]))))"
    by (simp add: serialize_object j1 split: sum.splits)
  from ser unfolded obtain x where x: "serialize ?h [length h] (Ref a) = Inr x"
    and body: "body = Some (JObj (members [k1, k2, k3, k4] [Some j1, Some (JNum n), x, Some (JStr u)]))"
    by (auto split: sum.splits)
  from serialize_ref_some [OF x] obtain j3 where "x = Some j3"
    by auto
  with body x show ?thesis
    by simp
qed

lemma click_request:
  assumes "effects (fst (saveBtn_click c env s)) = effects s @ [Post r]"
  shows "\<exists>h3 cardToSave u.
      prepare_card (autoFrame_val env) (store s) (the_card s) = (h3, Inr cardToSave)
      \<and> serialize (h3 @ [Object (request_data c cardToSave u)]) [] (Ref (length h3))
          = Inr (req_body r)"
  using assms unfolding saveBtn_click_def Let_def
  by (auto split: if_splits prod.splits sum.splits)

text \<open>
  C1. The body of every save request carries one card face, and that face holds no
  image handle: no frame of its \<open>frames\<close> sequence has an \<open>image\<close> field, and no mask
  of any of these frames has one.
\<close>

theorem save_body_image_free:
  assumes "effects (fst (saveBtn_click c env s)) = effects s @ [Post r]"
  shows "\<exists>face. faces r = [face] \<and> image_free face"
proof -
  from click_request [OF assms] obtain h3 cardToSave u
    where prep: "prepare_card (autoFrame_val env) (store s) (the_card s) = (h3, Inr cardToSave)"
      and ser: "serialize (h3 @ [Object (request_data c cardToSave u)]) [] (Ref (length h3))
          = Inr (req_body r)"
    by blast
  from prepare_card_ref [OF prep] obtain b where b: "cardToSave = Ref b"
    by blast
  define k3 where "k3 = (if EDITING_BACK c then ''back'' else ''front'')"
  define k4 where "k4 = (if EDITING_BACK c then ''back_image'' else ''front_image'')"
  define v1 where "v1 = (case cardId c of None \<Rightarrow> Null | Some n \<Rightarrow> Num n)"
  have data: "request_data c cardToSave u = [(''pk'', v1), (''set'', Num (setId c)), (k3, Ref b), (k4, Str u)]"
    by (simp add: request_data_def k3_def k4_def v1_def b)
  have v1: "v1 = Null \<or> (\<exists>m. v1 = Num m)"
    by (simp add: v1_def split: option.splits)
  from serialize_data_face [OF ser [unfolded data] v1] obtain j1 j3
    where body: "req_body r = Some (JObj [(''pk'', j1), (''set'', JNum (setId c)), (k3, j3), (k4, JStr u)])"
      and face: "serialize (h3 @ [Object [(''pk'', v1), (''set'', Num (setId c)), (k3, Ref b), (k4, Str u)]])
          [length h3] (Ref b) = Inr (Some j3)"
    by blast
  have plain: "\<forall>ps. Object [(''pk'', v1), (''set'', Num (setId c)), (k3, Ref b), (k4, Str u)] = Object ps
      \<longrightarrow> ''image'' \<notin> fst ` set ps"
    by (auto simp: k3_def k4_def)
  have "card_stripped (h3 @ [Object [(''pk'', v1), (''set'', Num (setId c)), (k3, Ref b), (k4, Str u)]])
      (Ref b)"
    using prepare_card_stripped [OF prep] plain unfolding b by (rule card_stripped_append)
  from serialize_card [OF this face] have "image_free j3" .
  moreover have "faces r = [j3]"
    using body by (simp add: faces_def field_def k3_def k4_def)
  ultimately show ?thesis
    by blast
qed

theorem save_body_image_free_witness:
  "effects (fst (saveBtn_click example_consts example_env example_page))
     = effects example_page @ [Post example_request]
   \<and> length (faces example_request) = 1
   \<and> list_all image_free (faces example_request)"
proof -
  have sent: "effects (fst (saveBtn_click example_consts example_env example_page))
      = effects example_page @ [Post example_request]"
    by (simp add: example_click_effects) (simp add: example_page_def)
  from save_body_image_free [OF sent] obtain face
    where "faces example_request = [face]" and "image_free face"
    by blast
  with sent show ?thesis
    by simp
qed

section \<open>The debounce\<close>

lemma map_of_put_same: "map_of (put k x ps) k = Some x"
  by (induction ps) auto

lemma get_prop_update_other:
  "a \<noteq> d \<Longrightarrow> get_prop (h[d := ob]) (Ref a) k = get_prop h (Ref a) k"
  by (simp add: get_prop_def)

lemma object_keys_update_other:
  "a \<noteq> d \<Longrightarrow> object_keys (h[d := ob]) (Ref a) = object_keys h (Ref a)"
  by (simp add: object_keys_def)

lemma selected_text_cong:
  "store s' = store s \<Longrightarrow> the_card s' = the_card s \<Longrightarrow>
   selectedTextIndex s' = selectedTextIndex s \<Longrightarrow> selected_text s' = selected_text s"
  by (simp add: selected_text_def cong: sum.case_cong)

lemma mana_cost_selected_cong:
  assumes "store s' = store s" and "the_card s' = the_card s"
    and "selectedTextIndex s' = selectedTextIndex s"
  shows "mana_cost_selected s' = mana_cost_selected s"
  using assms selected_text_cong [OF assms] by (simp add: mana_cost_selected_def)

lemma mana_cost_selectedD:
  assumes "mana_cost_selected s"
  shows "\<exists>c t d ps n. the_card s = Ref c \<and> get_prop (store s) (Ref c) ''text'' = Inr (Ref t)
      \<and> selected_text s = Inr (Ref d) \<and> d \<noteq> c \<and> d \<noteq> t \<and> d < length (store s)
      \<and> store s ! d = Object ps \<and> map_of ps ''name'' = Some (Str n)
      \<and> includes_str n ''Mana Cost''"
  using assms unfolding mana_cost_selected_def mana_box_def
  by (auto split: val.splits sum.splits obj.splits option.splits)

lemma editor_store_text_selected:
  assumes "mana_cost_selected s"
  shows "mana_cost_selected (editor_store_text tx s)
     \<and> (\<exists>d. selected_text (editor_store_text tx s) = Inr (Ref d)
           \<and> get_prop (store (editor_store_text tx s)) (Ref d) ''text'' = Inr (Str tx))
     \<and> pending (editor_store_text tx s) = pending s
     \<and> ScryfallTimer (editor_store_text tx s) = ScryfallTimer s
     \<and> next_timer (editor_store_text tx s) = next_timer s
     \<and> effects (editor_store_text tx s) = effects s"
proof -
  from mana_cost_selectedD [OF assms] obtain c t d ps n
    where c: "the_card s = Ref c" and t: "get_prop (store s) (Ref c) ''text'' = Inr (Ref t)"
      and d: "selected_text s = Inr (Ref d)" and ne: "d \<noteq> c" "d \<noteq> t"
      and len: "d < length (store s)" and ob: "store s ! d = Object ps"
      and n: "map_of ps ''name'' = Some (Str n)" "includes_str n ''Mana Cost''"
    by blast
  let ?h = "(store s)[d := Object (put ''text'' (Str tx) ps)]"
  have upd: "editor_store_text tx s = s\<lparr>store := ?h\<rparr>"
    using d len ob by (simp add: editor_store_text_def set_prop_def)
  have t': "get_prop ?h (Ref c) ''text'' = Inr (Ref t)"
    using t ne(1) by (simp add: get_prop_update_other)
  from d t c have sel: "(case object_keys (store s) (Ref t) of
        Inl e \<Rightarrow> Inl e
      | Inr ks \<Rightarrow> get_prop (store s) (Ref t) (selected_key ks (selectedTextIndex s))) = Inr (Ref d)"
    by (simp add: selected_text_def)
  have d': "selected_text (s\<lparr>store := ?h\<rparr>) = Inr (Ref d)"
    using sel c t' ne(2)
    by (simp add: selected_text_def object_keys_update_other get_prop_update_other
        split: sum.splits)
  have ob': "?h ! d = Object (put ''text'' (Str tx) ps)"
    using len by simp
  have name': "map_of (put ''text'' (Str tx) ps) ''name'' = Some (Str n)"
    using n(1) by (simp add: map_of_put_other)
  have "mana_cost_selected (s\<lparr>store := ?h\<rparr>)"
    unfolding mana_cost_selected_def mana_box_def
    using c t' d' ne len ob' name' n(2) by simp
  moreover have "get_prop ?h (Ref d) ''text'' = Inr (Str tx)"
    using len by (simp add: get_prop_def map_of_put_same)
  ultimately show ?thesis
    using upd d' by simp
qed

lemma restart_after_store:
  assumes "mana_cost_selected s"
    and "pending s = [] \<or> (\<exists>i due. pending s = [(i, due)] \<and> ScryfallTimer s = Some i)"
  shows "armed s t tx (text_editor_input t tx s)"
proof -
  let ?s0 = "s\<lparr>text_editor := tx\<rparr>"
  let ?s1 = "editor_store_text tx ?s0"
  let ?s2 = "text_editor_input t tx s"
  have "mana_cost_selected ?s0"
    using assms(1) mana_cost_selected_cong [of "?s0" s] by simp
  note st = editor_store_text_selected [OF this, of tx]
  have cleared: "pending (clearTimeout (ScryfallTimer ?s1) ?s1) = []"
    using assms(2) st by (auto simp: clearTimeout_def split: option.splits)
  have same: "store ?s2 = store ?s1" "the_card ?s2 = the_card ?s1"
    "selectedTextIndex ?s2 = selectedTextIndex ?s1" "effects ?s2 = effects ?s1"
    by (simp_all add: text_editor_input_def restartScryfallTimer_def setTimeout_def
        clearTimeout_def split: option.splits)
  have sel: "mana_cost_selected ?s2"
    using st mana_cost_selected_cong [OF same(1,2,3)] by simp
  have timer: "\<exists>i. pending ?s2 = [(i, t + 1000)] \<and> ScryfallTimer ?s2 = Some i"
    using cleared
    by (simp add: text_editor_input_def restartScryfallTimer_def setTimeout_def)
  have held: "\<exists>d. selected_text ?s2 = Inr (Ref d)
      \<and> get_prop (store ?s2) (Ref d) ''text'' = Inr (Str tx)"
    using st selected_text_cong [OF same(1,2,3)] same(1) by simp
  have "effects ?s2 = effects s"
    using st same(4) by simp
  with sel timer held show ?thesis
    unfolding armed_def by blast
qed

lemma advance_idle:
  assumes "pending s = [] \<or> (\<exists>i due. pending s = [(i, due)] \<and> now < due)"
  shows "advance now s = s"
  using assms by (auto simp: advance_def)

lemma armed_input:
  assumes "armed s0 t tx s" and "t \<le> t'" and "t' < t + 1000"
  shows "armed s0 t' tx' (text_editor_input t' tx' (advance t' s))"
proof -
  from assms(1) obtain i where i: "pending s = [(i, t + 1000)]" "ScryfallTimer s = Some i"
    and sel: "mana_cost_selected s" and eff: "effects s = effects s0"
    unfolding armed_def by blast
  have idle: "advance t' s = s"
    using i(1) assms(3) by (intro advance_idle) simp
  have "armed s t' tx' (text_editor_input t' tx' s)"
    using sel i by (intro restart_after_store) auto
  with idle eff show ?thesis
    by (simp add: armed_def)
qed

lemma armed_run:
  "armed s0 t tx s \<Longrightarrow> within_window ((t, tx) # es) \<Longrightarrow>
   armed s0 (fst (last ((t, tx) # es))) (snd (last ((t, tx) # es))) (run_inputs es s)"
proof (induction es arbitrary: t tx s)
  case Nil
  then show ?case
    by simp
next
  case (Cons e es)
  obtain t' tx' where e: "e = (t', tx')"
    by (cases e)
  from Cons.prems(2) e have gap: "t \<le> t'" "t' < t + 1000" and rest: "within_window ((t', tx') # es)"
    by simp_all
  from armed_input [OF Cons.prems(1) gap]
  have "armed s0 t' tx' (text_editor_input t' tx' (advance t' s))" .
  from Cons.IH [OF this rest] e show ?case
    by simp
qed

lemma armed_fires:
  assumes "armed s0 t tx s" and "t + 1000 \<le> T"
  shows "effects (advance T s) = effects s0 @ [Get (parse_mana_url @ tx)]
     \<and> pending (advance T s) = []"
proof -
  from assms(1) obtain i d where i: "pending s = [(i, t + 1000)]"
    and sel: "mana_cost_selected s" and eff: "effects s = effects s0"
    and d: "selected_text s = Inr (Ref d)" "get_prop (store s) (Ref d) ''text'' = Inr (Str tx)"
    unfolding armed_def by blast
  from mana_cost_selectedD [OF sel] d(1) obtain ps n
    where ob: "d < length (store s)" "store s ! d = Object ps"
      "map_of ps ''name'' = Some (Str n)" "includes_str n ''Mana Cost''"
    by auto
  let ?s = "s\<lparr>pending := []\<rparr>"
  have fired: "advance T s = fst (checkScryfall_start ?s)"
    using i assms(2) by (simp add: advance_def)
  have sel': "selected_text ?s = Inr (Ref d)"
    using d(1) selected_text_cong [of ?s s] by simp
  have name: "get_prop (store ?s) (Ref d) ''name'' = Inr (Str n)"
    using ob by (simp add: get_prop_def)
  have "checkScryfall_start ?s =
      (?s\<lparr>effects := effects ?s @ [Get (parse_mana_url @ tx)]\<rparr>, Awaiting)"
    using sel' name ob(4) d(2)
    by (simp add: checkScryfall_start_def includes_val_def)
  with fired eff show ?thesis
    by simp
qed

text \<open>
  C5. Take input events on the text field while the mana cost box is selected, each
  less than one second after the one before, starting with no lookup pending or with
  the one held in \<open>ScryfallTimer\<close> not yet due at the first event. Every event
  replaces the pending timer by a new one, so that after the last event exactly one
  timer is pending and nothing has been requested; once a second has passed since the
  last event, exactly one lookup has been requested, with the text of the last event
  after \<open>cost=\<close>, and no timer is left.
\<close>

theorem debounce_single_lookup:
  assumes "mana_cost_selected s"
    and "pending s = [] \<or>
         (\<exists>i due. pending s = [(i, due)] \<and> ScryfallTimer s = Some i \<and> fst (hd es) < due)"
    and "es \<noteq> []" and "within_window es" and "fst (last es) + 1000 \<le> T"
  shows "effects (run_inputs es s) = effects s
     \<and> map snd (pending (run_inputs es s)) = [fst (last es) + 1000]
     \<and> effects (advance T (run_inputs es s)) = effects s @ [Get (parse_mana_url @ snd (last es))]
     \<and> pending (advance T (run_inputs es s)) = []"
proof -
  from assms(3) obtain t tx es' where es: "es = (t, tx) # es'"
    by (cases es) auto
  have idle: "advance t s = s"
    using assms(2) es by (intro advance_idle) auto
  have "armed s t tx (text_editor_input t tx s)"
    using assms(1,2) by (intro restart_after_store) auto
  with idle have "armed s t tx (text_editor_input t tx (advance t s))"
    by simp
  from armed_run [OF this assms(4) [unfolded es]] es
  have last: "armed s (fst (last es)) (snd (last es)) (run_inputs es s)"
    by simp
  from armed_fires [OF last assms(5)] last show ?thesis
    by (auto simp: armed_def)
qed

theorem debounce_single_lookup_witness:
  "mana_cost_selected example_page
   \<and> within_window [(0, ''2''), (300, ''2W''), (900, ''2WW'')]
   \<and> effects (run_inputs [(0, ''2''), (300, ''2W''), (900, ''2WW'')] example_page) = []
   \<and> effects (advance 1900 (run_inputs [(0, ''2''), (300, ''2W''), (900, ''2WW'')] example_page))
       = [Get ''https://api.scryfall.com/symbology/parse-mana?cost=2WW'']"
proof -
  let ?es = "[(0, ''2''), (300, ''2W''), (900, ''2WW'')] :: (nat \<times> string) list"
  have sel: "mana_cost_selected example_page"
    by code_simp
  have idle: "pending example_page = [] \<or>
      (\<exists>i due. pending example_page = [(i, due)] \<and> ScryfallTimer example_page = Some i
         \<and> fst (hd ?es) < due)"
    by (simp add: example_page_def)
  have some: "?es \<noteq> []"
    by simp
  have close: "within_window ?es"
    by simp
  have late: "fst (last ?es) + 1000 \<le> 1900"
    by simp
  show ?thesis
    using sel close debounce_single_lookup [OF sel idle some close late]
    by (simp add: example_page_def parse_mana_url_def)
qed

end
